theory Spec2Isabelle
  imports Main "HOL-Library.Word"
begin

section \<open>Data model of main.go\<close>

text \<open>
  Go's \<open>int\<close> has 64 bits and its arithmetic wraps around. The model computes on the
  unbounded \<open>int\<close> and writes the wrap-around out, with \<open>wrap64\<close>, at the two products
  whose factors come from the command line and are bounded by nothing else: the number
  of cells \<open>Width * Height\<close> in \<open>NewPlayField\<close> and \<open>addBlackHoles\<close>, and the retry
  budget \<open>BlackHoleQuantity * 100\<close> in \<open>addBlackHoles\<close>. Every other integer of the
  program on a field that exists (\<open>wellFormed\<close> below) and at a position inside it is
  an index below the number of cells of a slice that fits in memory, or a counter below
  \<open>BlackHoleQuantity\<close>, and does not wrap. The one narrow integer, the \<open>int8\<close> counter
  of a cell, is an \<open>8 word\<close>, whose \<open>+ 1\<close> wraps as Go's \<open>++\<close> does.
\<close>

definition wrap64 :: "int \<Rightarrow> int" where
  "wrap64 n = (n + 2 ^ 63) mod 2 ^ 64 - 2 ^ 63"

record playCell =
  IsVisible :: bool
  IsBlackHole :: bool
  IsMarked :: bool
  IsExploded :: bool
  AdjucentBlackHoleQuantity :: "8 word"

record playField =
  Width :: int
  Height :: int
  BlackHoleQuantity :: int
  Cells :: "playCell list"

text \<open>\<open>playCellPos\<close>: the pair (width, height).\<close>

type_synonym playCellPos = "int \<times> int"

text \<open>
  Run-time panics of the program: an index outside a slice, \<open>rand.Intn\<close> called with a
  non-positive bound, and the explicit \<open>panic\<close> of \<open>addBlackHoles\<close> with its two
  numbers.
\<close>

datatype panic =
    IndexOutOfRange
  | InvalidIntnArgument
  | CouldNotGenerate int int

text \<open>The zero value of \<open>playCell\<close>, which \<open>make\<close> fills the slice with.\<close>

definition zeroCell :: playCell where
  "zeroCell = \<lparr>IsVisible = False, IsBlackHole = False, IsMarked = False,
                IsExploded = False, AdjucentBlackHoleQuantity = 0\<rparr>"

text \<open>\<open>field.Cells[i]\<close> as a read: a panic when \<open>i\<close> is outside the slice.\<close>

definition cellAt :: "playField \<Rightarrow> int \<Rightarrow> panic + playCell" where
  "cellAt field i =
     (if 0 \<le> i \<and> i < int (length (Cells field)) then Inr (Cells field ! nat i)
      else Inl IndexOutOfRange)"

text \<open>The write through a pointer \<open>&field.Cells[i]\<close> that \<open>cellAt\<close> found in range.\<close>

definition setCell :: "playField \<Rightarrow> int \<Rightarrow> playCell \<Rightarrow> playField" where
  "setCell field i c = field\<lparr>Cells := (Cells field)[nat i := c]\<rparr>"

subsection \<open>NewPlayField\<close>

text \<open>
  The product \<open>fieldWidth*fieldHeight\<close> wraps. After the check of
  \<open>blackHoleQuantity\<close> the wrapped product is at least 1, so \<open>make\<close> gets a positive
  length; that so many cells fit in memory is taken for granted.
\<close>

datatype configError =
    WidthNotPositive
  | HeightNotPositive
  | QuantityNotPositive
  | QuantityTooHigh

definition NewPlayField :: "int \<Rightarrow> int \<Rightarrow> int \<Rightarrow> configError + playField" where
  "NewPlayField fieldWidth fieldHeight blackHoleQuantity =
     (if fieldWidth \<le> 0 then Inl WidthNotPositive
      else if fieldHeight \<le> 0 then Inl HeightNotPositive
      else if blackHoleQuantity < 1 then Inl QuantityNotPositive
      else if blackHoleQuantity > wrap64 (fieldWidth * fieldHeight) then Inl QuantityTooHigh
      else Inr \<lparr>Width = fieldWidth, Height = fieldHeight,
                 BlackHoleQuantity = blackHoleQuantity,
                 Cells = replicate (nat (wrap64 (fieldWidth * fieldHeight))) zeroCell\<rparr>)"

lemma wrap64_id: "- (2 ^ 63) \<le> n \<Longrightarrow> n < 2 ^ 63 \<Longrightarrow> wrap64 n = n"
  by (simp add: wrap64_def)

text \<open>
  The shape every field made by \<open>NewPlayField\<close> has, and keeps: no function of the program
  changes the dimensions or the length of the slice.
\<close>

definition wellFormed :: "playField \<Rightarrow> bool" where
  "wellFormed field \<longleftrightarrow>
     0 < Width field \<and> 0 < Height field \<and>
     length (Cells field) = nat (Width field * Height field)"

definition inBounds :: "playField \<Rightarrow> int \<Rightarrow> int \<Rightarrow> bool" where
  "inBounds field width height \<longleftrightarrow>
     0 \<le> width \<and> width < Width field \<and> 0 \<le> height \<and> height < Height field"

subsection \<open>updateFieldCell and checkFieldBlackHole\<close>

definition updateFieldCell :: "playField \<Rightarrow> int \<Rightarrow> int \<Rightarrow> bool \<Rightarrow> panic + playField" where
  "updateFieldCell field width height marked =
     (let rowBias = height * Width field in
      case cellAt field (rowBias + width) of
        Inl e \<Rightarrow> Inl e
      | Inr currentCell \<Rightarrow>
          if marked then Inr (setCell field (rowBias + width) (currentCell\<lparr>IsMarked := True\<rparr>))
          else Inr (setCell field (rowBias + width) (currentCell\<lparr>IsVisible := True\<rparr>)))"

text \<open>The result is the returned boolean and the field after the call.\<close>

definition checkFieldBlackHole :: "playField \<Rightarrow> int \<Rightarrow> int \<Rightarrow> panic + bool \<times> playField" where
  "checkFieldBlackHole field width height =
     (let rowBias = height * Width field in
      case cellAt field (rowBias + width) of
        Inl e \<Rightarrow> Inl e
      | Inr currentCell \<Rightarrow>
          if IsVisible currentCell \<and> IsBlackHole currentCell
          then Inr (True, setCell field (rowBias + width) (currentCell\<lparr>IsExploded := True\<rparr>))
          else Inr (False, field))"

section \<open>Indices of a well-formed field\<close>

lemma index_in_range:
  assumes "wellFormed field" and "inBounds field width height"
  shows "0 \<le> height * Width field + width"
    and "height * Width field + width < int (length (Cells field))"
proof -
  from assms have w: "0 \<le> width" "width < Width field" and h: "0 \<le> height" "height < Height field"
    and len: "int (length (Cells field)) = Width field * Height field"
    by (auto simp: wellFormed_def inBounds_def)
  from h w show "0 \<le> height * Width field + width" by simp
  from h have "height + 1 \<le> Height field" by simp
  with w have "(height + 1) * Width field \<le> Height field * Width field"
    by (intro mult_right_mono) auto
  with w show "height * Width field + width < int (length (Cells field))"
    by (simp add: len algebra_simps)
qed

lemma cellAt_inBounds:
  assumes "wellFormed field" and "inBounds field width height"
  shows "cellAt field (height * Width field + width) =
           Inr (Cells field ! nat (height * Width field + width))"
  using index_in_range [OF assms] by (simp add: cellAt_def)

lemma cellAt_setCell_same:
  "cellAt field i = Inr c \<Longrightarrow> cellAt (setCell field i c') i = Inr c'"
  by (auto simp: cellAt_def setCell_def split: if_splits)

lemma setCell_setCell_same [simp]:
  "setCell (setCell field i c) i c' = setCell field i c'"
  by (simp add: setCell_def)

lemma Width_setCell [simp]: "Width (setCell field i c) = Width field"
  and Height_setCell [simp]: "Height (setCell field i c) = Height field"
  and BlackHoleQuantity_setCell [simp]:
    "BlackHoleQuantity (setCell field i c) = BlackHoleQuantity field"
  and length_Cells_setCell [simp]: "length (Cells (setCell field i c)) = length (Cells field)"
  by (simp_all add: setCell_def)

text \<open>The cell at a position, for statements about in-bounds positions.\<close>

definition cellOf :: "playField \<Rightarrow> int \<Rightarrow> int \<Rightarrow> playCell" where
  "cellOf field width height = Cells field ! nat (height * Width field + width)"

lemma position_of_index:
  assumes "wellFormed field" and "i < length (Cells field)"
  shows "inBounds field (int i mod Width field) (int i div Width field)"
    and "nat ((int i div Width field) * Width field + int i mod Width field) = i"
proof -
  from assms have W: "0 < Width field" and i: "int i < Width field * Height field"
    by (auto simp: wellFormed_def)
  have "int i div Width field < Height field"
  proof (rule ccontr)
    assume "\<not> int i div Width field < Height field"
    then have "Height field * Width field \<le> (int i div Width field) * Width field"
      using W by (intro mult_right_mono) auto
    moreover have "0 \<le> int i mod Width field"
      using W by simp
    moreover have "(int i div Width field) * Width field + int i mod Width field = int i"
      by simp
    ultimately show False using i by (simp only: mult.commute [of "Height field"])
  qed
  moreover have "0 \<le> int i div Width field"
    using W by (simp add: pos_imp_zdiv_nonneg_iff)
  ultimately show "inBounds field (int i mod Width field) (int i div Width field)"
    using W by (simp add: inBounds_def)
  show "nat ((int i div Width field) * Width field + int i mod Width field) = i"
    by simp
qed

lemma all_cells_by_position:
  assumes "wellFormed field"
  shows "(\<forall>c \<in> set (Cells field). P c) \<longleftrightarrow>
         (\<forall>width height. inBounds field width height \<longrightarrow> P (cellOf field width height))"
proof
  assume a: "\<forall>c \<in> set (Cells field). P c"
  show "\<forall>width height. inBounds field width height \<longrightarrow> P (cellOf field width height)"
  proof (intro allI impI)
    fix width height assume "inBounds field width height"
    from index_in_range [OF assms this] have "nat (height * Width field + width) < length (Cells field)"
      by simp
    with a show "P (cellOf field width height)" by (simp add: cellOf_def)
  qed
next
  assume a: "\<forall>width height. inBounds field width height \<longrightarrow> P (cellOf field width height)"
  show "\<forall>c \<in> set (Cells field). P c"
  proof
    fix c assume "c \<in> set (Cells field)"
    then obtain i where i: "i < length (Cells field)" and c: "c = Cells field ! i"
      by (auto simp: in_set_conv_nth)
    from a position_of_index [OF assms i] have "P (cellOf field (int i mod Width field) (int i div Width field))"
      by blast
    with position_of_index(2) [OF assms i] c show "P c" by (simp add: cellOf_def)
  qed
qed

section \<open>checkFieldBlackHole\<close>

text \<open>
  Claim C8. On a well-formed field and an in-bounds position, \<open>checkFieldBlackHole\<close>
  returns true exactly when the cell is visible and a black hole. When it returns true the
  field after the call is the field before with \<open>IsExploded\<close> of that one cell set and
  nothing else changed; when it returns false the field is unchanged. Calling it again on
  the field it produced returns the same boolean and the same field.
\<close>

theorem checkFieldBlackHole_spec:
  assumes "wellFormed field" and "inBounds field width height"
  shows "\<exists>c. cellAt field (height * Width field + width) = Inr c \<and>
           checkFieldBlackHole field width height =
             Inr (IsVisible c \<and> IsBlackHole c,
                  if IsVisible c \<and> IsBlackHole c
                  then setCell field (height * Width field + width) (c\<lparr>IsExploded := True\<rparr>)
                  else field) \<and>
           (\<forall>b field'. checkFieldBlackHole field width height = Inr (b, field') \<longrightarrow>
                checkFieldBlackHole field' width height = Inr (b, field'))"
proof -
  let ?i = "height * Width field + width"
  let ?c = "Cells field ! nat ?i"
  have c: "cellAt field ?i = Inr ?c" by (rule cellAt_inBounds [OF assms])
  have first: "checkFieldBlackHole field width height =
      Inr (IsVisible ?c \<and> IsBlackHole ?c,
           if IsVisible ?c \<and> IsBlackHole ?c then setCell field ?i (?c\<lparr>IsExploded := True\<rparr>)
           else field)"
    by (simp add: checkFieldBlackHole_def Let_def c)
  have again: "checkFieldBlackHole field' width height = Inr (b, field')"
    if "checkFieldBlackHole field width height = Inr (b, field')" for b field'
  proof (cases "IsVisible ?c \<and> IsBlackHole ?c")
    case True
    with that first have b: "b" and f': "field' = setCell field ?i (?c\<lparr>IsExploded := True\<rparr>)"
      by auto
    have "cellAt field' ?i = Inr (?c\<lparr>IsExploded := True\<rparr>)"
      unfolding f' by (rule cellAt_setCell_same [OF c])
    with True b show ?thesis
      by (simp add: checkFieldBlackHole_def Let_def f')
  next
    case False
    with that first have "\<not> b" and "field' = field" by auto
    with that show ?thesis by simp
  qed
  from c first again show ?thesis by blast
qed

text \<open>A 1 x 1 field whose only cell is a revealed black hole.\<close>

definition revealedHoleField :: playField where
  "revealedHoleField =
     \<lparr>Width = 1, Height = 1, BlackHoleQuantity = 1,
      Cells = [zeroCell\<lparr>IsVisible := True, IsBlackHole := True\<rparr>]\<rparr>"

theorem checkFieldBlackHole_spec_witness:
  "wellFormed revealedHoleField \<and> inBounds revealedHoleField 0 0 \<and>
   checkFieldBlackHole revealedHoleField 0 0 =
     Inr (True, revealedHoleField\<lparr>Cells :=
       [zeroCell\<lparr>IsVisible := True, IsBlackHole := True, IsExploded := True\<rparr>]\<rparr>)"
proof -
  have wf: "wellFormed revealedHoleField"
    by (simp add: wellFormed_def revealedHoleField_def)
  have ib: "inBounds revealedHoleField 0 0"
    by (simp add: inBounds_def revealedHoleField_def)
  from checkFieldBlackHole_spec [OF wf ib] wf ib show ?thesis
    by (simp add: cellAt_def setCell_def revealedHoleField_def zeroCell_def)
qed

section \<open>The loss branch of main\<close>

lemma updateFieldCell_shape:
  assumes "updateFieldCell field width height marked = Inr field'"
  shows "Width field' = Width field" and "Height field' = Height field"
    and "BlackHoleQuantity field' = BlackHoleQuantity field"
    and "length (Cells field') = length (Cells field)"
  using assms by (auto simp: updateFieldCell_def Let_def split: sum.splits if_splits)

text \<open>
  Lines 64 to 68 of main: two nested loops, both bounded by \<open>playField.Width\<close>, calling
  \<open>updateFieldCell(w, h, false)\<close>. The inner loop first, from column \<open>w\<close> on.
\<close>

function forceVisibilityRow :: "playField \<Rightarrow> int \<Rightarrow> int \<Rightarrow> panic + playField" where
  "forceVisibilityRow field h w =
     (if w < Width field then
        (case updateFieldCell field w h False of
           Inl e \<Rightarrow> Inl e
         | Inr field' \<Rightarrow> forceVisibilityRow field' h (w + 1))
      else Inr field)"
  by pat_completeness auto
termination
  by (relation "measure (\<lambda>(field, h, w). nat (Width field - w))")
     (auto simp: updateFieldCell_shape)

declare forceVisibilityRow.simps [simp del]

lemma forceVisibilityRow_Width:
  "forceVisibilityRow field h w = Inr field' \<Longrightarrow> Width field' = Width field"
proof (induction field h w rule: forceVisibilityRow.induct)
  case (1 field h w)
  show ?case
  proof (cases "w < Width field")
    case True
    with "1.prems" obtain f1 where u: "updateFieldCell field w h False = Inr f1"
      and r: "forceVisibilityRow f1 h (w + 1) = Inr field'"
      by (subst (asm) forceVisibilityRow.simps) (auto split: sum.splits)
    from "1.IH" [OF True u r] updateFieldCell_shape(1) [OF u] show ?thesis by simp
  next
    case False
    with "1.prems" show ?thesis
      by (subst (asm) forceVisibilityRow.simps) simp
  qed
qed

text \<open>The outer loop, from row \<open>h\<close> on: \<open>for h := 0; h < playField.Width; h++\<close>.\<close>

function forceVisibilityRows :: "playField \<Rightarrow> int \<Rightarrow> panic + playField" where
  "forceVisibilityRows field h =
     (if h < Width field then
        (case forceVisibilityRow field h 0 of
           Inl e \<Rightarrow> Inl e
         | Inr field' \<Rightarrow> forceVisibilityRows field' (h + 1))
      else Inr field)"
  by pat_completeness auto
termination
  by (relation "measure (\<lambda>(field, h). nat (Width field - h))")
     (auto simp: forceVisibilityRow_Width)

declare forceVisibilityRows.simps [simp del]

definition forceTotalVisibility :: "playField \<Rightarrow> panic + playField" where
  "forceTotalVisibility field = forceVisibilityRows field 0"

text \<open>
  Lines 60 to 72 of main, for a command that parsed: the cell is updated, the black hole
  is checked, and when it exploded the whole field is forced visible before the final
  print and the exit. \<open>Exploded\<close> carries the field that is printed last; \<open>NotExploded\<close>
  the field with which the turn goes on at line 74.
\<close>

datatype detonation = Exploded playField | NotExploded playField

definition detonationStep :: "playField \<Rightarrow> int \<Rightarrow> int \<Rightarrow> bool \<Rightarrow> panic + detonation" where
  "detonationStep field width height marked =
     (case updateFieldCell field width height marked of
        Inl e \<Rightarrow> Inl e
      | Inr field1 \<Rightarrow>
          (case checkFieldBlackHole field1 width height of
             Inl e \<Rightarrow> Inl e
           | Inr (exploded, field2) \<Rightarrow>
               if exploded then
                 (case forceTotalVisibility field2 of
                    Inl e \<Rightarrow> Inl e
                  | Inr field3 \<Rightarrow> Inr (Exploded field3))
               else Inr (NotExploded field2)))"

text \<open>
  Two fields as \<open>NewPlayField\<close> and \<open>addBlackHoles\<close> leave them, with one black hole at
  position (0, 0): one column and two rows, and two columns and one row.
\<close>

definition tallField :: playField where
  "tallField =
     \<lparr>Width = 1, Height = 2, BlackHoleQuantity = 1,
      Cells = [zeroCell\<lparr>IsBlackHole := True\<rparr>,
               zeroCell\<lparr>AdjucentBlackHoleQuantity := 1\<rparr>]\<rparr>"

definition wideField :: playField where
  "wideField =
     \<lparr>Width = 2, Height = 1, BlackHoleQuantity = 1,
      Cells = [zeroCell\<lparr>IsBlackHole := True\<rparr>,
               zeroCell\<lparr>AdjucentBlackHoleQuantity := 1\<rparr>]\<rparr>"

text \<open>
  Claim C1, at a field of one column and two rows. Revealing the black hole at (0, 0)
  takes the loss branch, and the field it prints has the cell at (0, 1) still hidden: the
  outer loop runs to \<open>Width\<close>, so row 1 is never visited.
\<close>

theorem loss_branch_leaves_row_hidden:
  "wellFormed tallField \<and> inBounds tallField 0 1 \<and>
   detonationStep tallField 0 0 False =
     Inr (Exploded (tallField\<lparr>Cells :=
       [zeroCell\<lparr>IsVisible := True, IsBlackHole := True, IsExploded := True\<rparr>,
        zeroCell\<lparr>AdjucentBlackHoleQuantity := 1\<rparr>]\<rparr>)) \<and>
   \<not> IsVisible (zeroCell\<lparr>AdjucentBlackHoleQuantity := 1\<rparr>)"
  by (simp add: wellFormed_def inBounds_def tallField_def detonationStep_def
      updateFieldCell_def checkFieldBlackHole_def cellAt_def setCell_def zeroCell_def
      forceTotalVisibility_def forceVisibilityRows.simps forceVisibilityRow.simps)

text \<open>
  Claim C2, at a field of two columns and one row. Revealing the black hole at (0, 0)
  takes the loss branch, whose outer loop reaches row 1 and calls
  \<open>updateFieldCell(0, 1, false)\<close>: index 2 of a slice of length 2, a panic.
\<close>

theorem loss_branch_index_out_of_range:
  "wellFormed wideField \<and>
   NewPlayField 2 1 1 = Inr (wideField\<lparr>Cells := [zeroCell, zeroCell]\<rparr>) \<and>
   detonationStep wideField 0 0 False = Inl IndexOutOfRange"
  by (simp add: wellFormed_def NewPlayField_def wideField_def detonationStep_def
      updateFieldCell_def checkFieldBlackHole_def cellAt_def setCell_def zeroCell_def
      forceTotalVisibility_def forceVisibilityRows.simps forceVisibilityRow.simps
      numeral_2_eq_2 wrap64_def)

section \<open>parseUserCommand\<close>

text \<open>
  The three library functions the parser calls, modelled from the documentation of Go's
  standard library. A Go string is a sequence of bytes, read as UTF-8, and a \<open>string\<close>
  here is the list of those bytes.

  White space is what \<open>unicode.IsSpace\<close> accepts: tab, line feed, vertical tab, form
  feed, carriage return, space, U+0085, U+00A0, U+1680, U+2000 to U+200A, U+2028,
  U+2029, U+202F, U+205F and U+3000. \<open>spaceEncodings\<close> lists their UTF-8 encodings.
  Each starts with a byte that begins a character, so none can start inside the
  encoding of another character, and scanning byte by byte finds the same white space
  as Go's scanning character by character (where an invalid byte counts as one
  character, not white space).
\<close>

definition spaceEncodings :: "string list" where
  "spaceEncodings =
     [[CHR 0x09], [CHR 0x0A], [CHR 0x0B], [CHR 0x0C], [CHR 0x0D], [CHR 0x20],
      [CHR 0xC2, CHR 0x85], [CHR 0xC2, CHR 0xA0],
      [CHR 0xE1, CHR 0x9A, CHR 0x80],
      [CHR 0xE2, CHR 0x80, CHR 0x80], [CHR 0xE2, CHR 0x80, CHR 0x81],
      [CHR 0xE2, CHR 0x80, CHR 0x82], [CHR 0xE2, CHR 0x80, CHR 0x83],
      [CHR 0xE2, CHR 0x80, CHR 0x84], [CHR 0xE2, CHR 0x80, CHR 0x85],
      [CHR 0xE2, CHR 0x80, CHR 0x86], [CHR 0xE2, CHR 0x80, CHR 0x87],
      [CHR 0xE2, CHR 0x80, CHR 0x88], [CHR 0xE2, CHR 0x80, CHR 0x89],
      [CHR 0xE2, CHR 0x80, CHR 0x8A],
      [CHR 0xE2, CHR 0x80, CHR 0xA8], [CHR 0xE2, CHR 0x80, CHR 0xA9],
      [CHR 0xE2, CHR 0x80, CHR 0xAF], [CHR 0xE2, CHR 0x81, CHR 0x9F],
      [CHR 0xE3, CHR 0x80, CHR 0x80]]"

text \<open>
  The number of bytes of the encoding, among \<open>encodings\<close>, that the string starts with;
  0 when it starts with none.
\<close>

definition spaceWidth :: "string list \<Rightarrow> string \<Rightarrow> nat" where
  "spaceWidth encodings s =
     (case find (\<lambda>e. take (length e) s = e) encodings of
        None \<Rightarrow> 0
      | Some e \<Rightarrow> length e)"

lemma spaceWidth_le: "spaceWidth encodings s \<le> length s"
proof (cases "find (\<lambda>e. take (length e) s = e) encodings")
  case None
  then show ?thesis by (simp add: spaceWidth_def)
next
  case (Some e)
  then have "take (length e) s = e" by (auto simp: find_Some_iff)
  then have "length (take (length e) s) = length e" by simp
  then have "length e \<le> length s" by simp
  with Some show ?thesis by (simp add: spaceWidth_def)
qed

text \<open>
  \<open>strings.TrimSpace\<close>: leading and trailing white space removed. The trailing white
  space is the leading one of the reversed string, with the encodings reversed.
\<close>

function trimLeading :: "string list \<Rightarrow> string \<Rightarrow> string" where
  "trimLeading encodings s =
     (if 0 < spaceWidth encodings s then trimLeading encodings (drop (spaceWidth encodings s) s)
      else s)"
  by pat_completeness auto
termination
proof (relation "measure (\<lambda>(encodings, s). length s)")
  fix encodings :: "string list" and s :: string
  assume "0 < spaceWidth encodings s"
  with spaceWidth_le [of encodings s]
  show "((encodings, drop (spaceWidth encodings s) s), (encodings, s)) \<in>
      measure (\<lambda>(encodings, s). length s)"
    by simp
qed simp

declare trimLeading.simps [simp del]

definition TrimSpace :: "string \<Rightarrow> string" where
  "TrimSpace s =
     rev (trimLeading (map rev spaceEncodings) (rev (trimLeading spaceEncodings s)))"

text \<open>
  \<open>strings.Fields\<close>: the maximal runs of bytes without white space.
  \<open>splitFields cur s\<close> scans \<open>s\<close> with the field \<open>cur\<close> being collected.
\<close>

function splitFields :: "string \<Rightarrow> string \<Rightarrow> string list" where
  "splitFields cur s =
     (if s = [] then (if cur = [] then [] else [cur])
      else if 0 < spaceWidth spaceEncodings s then
        (if cur = [] then splitFields [] (drop (spaceWidth spaceEncodings s) s)
         else cur # splitFields [] (drop (spaceWidth spaceEncodings s) s))
      else splitFields (cur @ [hd s]) (tl s))"
  by pat_completeness auto
termination
proof (relation "measure (\<lambda>(cur, s). length s)")
  fix cur s :: string
  assume "0 < spaceWidth spaceEncodings s"
  with spaceWidth_le [of spaceEncodings s]
  show "(([], drop (spaceWidth spaceEncodings s) s), (cur, s)) \<in> measure (\<lambda>(cur, s). length s)"
    by simp
qed simp_all

declare splitFields.simps [simp del]

definition Fields :: "string \<Rightarrow> string list" where
  "Fields s = splitFields [] s"

text \<open>
  \<open>strconv.Atoi\<close>: an optional sign, then one or more decimal digits, and a value that
  fits a 64-bit \<open>int\<close>; \<open>None\<close> is its error.
\<close>

definition isDigit :: "char \<Rightarrow> bool" where
  "isDigit c \<longleftrightarrow> c \<in> set ''0123456789''"

definition digitValue :: "char \<Rightarrow> int" where
  "digitValue c = int (of_char c) - 48"

definition Atoi :: "string \<Rightarrow> int option" where
  "Atoi s =
     (let (negative, digits) =
            (case s of
               [] \<Rightarrow> (False, s)
             | c # rest \<Rightarrow>
                 if c = CHR ''-'' then (True, rest)
                 else if c = CHR ''+'' then (False, rest)
                 else (False, s))
      in if digits = [] \<or> \<not> list_all isDigit digits then None
         else
           let magnitude = foldl (\<lambda>a c. 10 * a + digitValue c) 0 digits;
               n = (if negative then - magnitude else magnitude)
           in if n < - (2 ^ 63) \<or> 2 ^ 63 \<le> n then None else Some n)"

datatype parseError =
    NotEnoughArguments
  | WidthNotInt string
  | WidthTooHigh int int
  | HeightNotInt string
  | HeightTooHigh int int
  | MarkNotBool string
  | TooManyArguments

text \<open>
  Lines 330 to 367: the parser on the list of fields. The errors carry the values the
  messages of the source print.
\<close>

definition parseArguments ::
  "playField \<Rightarrow> string list \<Rightarrow> parseError + int \<times> int \<times> bool" where
  "parseArguments field commandArguments =
     (let commandArgumentsLen = length commandArguments in
      if commandArgumentsLen < 2 then Inl NotEnoughArguments
      else if commandArgumentsLen = 2 \<or> commandArgumentsLen = 3 then
        (case Atoi (commandArguments ! 0) of
           None \<Rightarrow> Inl (WidthNotInt (commandArguments ! 0))
         | Some width \<Rightarrow>
             if width \<ge> Width field then Inl (WidthTooHigh width (Width field - 1))
             else
               (case Atoi (commandArguments ! 1) of
                  None \<Rightarrow> Inl (HeightNotInt (commandArguments ! 1))
                | Some height \<Rightarrow>
                    if height \<ge> Height field
                    then Inl (HeightTooHigh height (Height field - 1))
                    else if commandArgumentsLen = 3 then
                      (if commandArguments ! 2 = ''true'' \<or> commandArguments ! 2 = ''1''
                       then Inr (width, height, True)
                       else if commandArguments ! 2 = ''false'' \<or> commandArguments ! 2 = ''0''
                       then Inr (width, height, False)
                       else Inl (MarkNotBool (commandArguments ! 2)))
                    else Inr (width, height, False)))
      else Inl TooManyArguments)"

definition parseUserCommand ::
  "playField \<Rightarrow> string \<Rightarrow> parseError + int \<times> int \<times> bool" where
  "parseUserCommand field commandParameters =
     (let trimmedCommandParameters = TrimSpace commandParameters;
          commandArguments = Fields trimmedCommandParameters
      in parseArguments field commandArguments)"

text \<open>The fields of the command lines of the specification's examples.\<close>

lemma fields_examples:
  "Fields (TrimSpace ''2 3'') = [''2'', ''3'']"
  "Fields (TrimSpace ''2 3 true'') = [''2'', ''3'', ''true'']"
  "Fields (TrimSpace ''8 3'') = [''8'', ''3'']"
  "Fields (TrimSpace ''2'') = [''2'']"
  "Fields (TrimSpace ''2 3 maybe'') = [''2'', ''3'', ''maybe'']"
  "Fields (TrimSpace ''1 2 3 4'') = [''1'', ''2'', ''3'', ''4'']"
  by code_simp+

lemmas parse_eval = parseUserCommand_def parseArguments_def fields_examples
  Atoi_def isDigit_def digitValue_def

text \<open>
  Claim C6. On every field of width 8 and height 8: \<open>"2 3"\<close> parses to (2, 3, false),
  \<open>"2 3 true"\<close> to (2, 3, true); \<open>"8 3"\<close> is rejected as out of range, \<open>"2"\<close> for
  too few arguments, \<open>"2 3 maybe"\<close> for its mark token and \<open>"1 2 3 4"\<close> for too many
  arguments. With three fields the parser succeeds exactly when both numbers parse and
  are below the dimensions and the third field is \<open>true\<close> or \<open>1\<close> (mark) or
  \<open>false\<close> or \<open>0\<close> (no mark).
\<close>

theorem parseUserCommand_examples:
  assumes "Width field = 8" and "Height field = 8"
  shows "parseUserCommand field ''2 3'' = Inr (2, 3, False) \<and>
         parseUserCommand field ''2 3 true'' = Inr (2, 3, True) \<and>
         parseUserCommand field ''8 3'' = Inl (WidthTooHigh 8 7) \<and>
         parseUserCommand field ''2'' = Inl NotEnoughArguments \<and>
         parseUserCommand field ''2 3 maybe'' = Inl (MarkNotBool ''maybe'') \<and>
         parseUserCommand field ''1 2 3 4'' = Inl TooManyArguments \<and>
         (\<forall>a b m width height mark.
            parseArguments field [a, b, m] = Inr (width, height, mark) \<longleftrightarrow>
              Atoi a = Some width \<and> width < 8 \<and> Atoi b = Some height \<and> height < 8 \<and>
              (if mark then m = ''true'' \<or> m = ''1'' else m = ''false'' \<or> m = ''0''))"
proof -
  have e1: "parseUserCommand field ''2 3'' = Inr (2, 3, False)"
    using assms by (simp add: parse_eval)
  have e2: "parseUserCommand field ''2 3 true'' = Inr (2, 3, True)"
    using assms by (simp add: parse_eval)
  have e3: "parseUserCommand field ''8 3'' = Inl (WidthTooHigh 8 7)"
    using assms by (simp add: parse_eval)
  have e4: "parseUserCommand field ''2'' = Inl NotEnoughArguments"
    using assms by (simp add: parse_eval)
  have e5: "parseUserCommand field ''2 3 maybe'' = Inl (MarkNotBool ''maybe'')"
    using assms by (simp add: parse_eval)
  have e6: "parseUserCommand field ''1 2 3 4'' = Inl TooManyArguments"
    using assms by (simp add: parse_eval)
  have m: "parseArguments field [a, b, m] = Inr (width, height, mark) \<longleftrightarrow>
              Atoi a = Some width \<and> width < 8 \<and> Atoi b = Some height \<and> height < 8 \<and>
              (if mark then m = ''true'' \<or> m = ''1'' else m = ''false'' \<or> m = ''0'')"
    for a b m width height mark
    using assms by (auto simp: parseArguments_def split: option.splits)
  from e1 e2 e3 e4 e5 e6 m show ?thesis by blast
qed

text \<open>The default field of the program, as \<open>NewPlayField\<close> returns it.\<close>

definition defaultField :: playField where
  "defaultField =
     \<lparr>Width = 8, Height = 8, BlackHoleQuantity = 10, Cells = replicate 64 zeroCell\<rparr>"

theorem parseUserCommand_examples_witness:
  "NewPlayField 8 8 10 = Inr defaultField \<and>
   Width defaultField = 8 \<and> Height defaultField = 8 \<and>
   parseUserCommand defaultField ''2 3 true'' = Inr (2, 3, True) \<and>
   parseUserCommand defaultField ''8 3'' = Inl (WidthTooHigh 8 7) \<and>
   parseArguments defaultField [''7'', ''0'', ''0''] = Inr (7, 0, False)"
proof -
  have w: "Width defaultField = 8" and h: "Height defaultField = 8"
    by (simp_all add: defaultField_def)
  have a: "Atoi ''7'' = Some 7" "Atoi ''0'' = Some 0"
    by (simp_all add: Atoi_def isDigit_def digitValue_def)
  have n: "NewPlayField 8 8 10 = Inr defaultField"
    by (simp add: NewPlayField_def defaultField_def wrap64_def)
  from parseUserCommand_examples [OF w h] w h a n show ?thesis by simp
qed

section \<open>checkWinResult\<close>

text \<open>
  The inner loop of \<open>checkWinResult\<close>, from column \<open>width\<close> on: \<open>Inr False\<close> is the
  \<open>return false\<close> of line 319, \<open>Inr True\<close> the end of the row.
\<close>

function checkWinRow :: "playField \<Rightarrow> int \<Rightarrow> int \<Rightarrow> panic + bool" where
  "checkWinRow field height width =
     (if width < Width field then
        (case cellAt field (height * Width field + width) of
           Inl e \<Rightarrow> Inl e
         | Inr currentCell \<Rightarrow>
             if \<not> IsBlackHole currentCell \<and> (\<not> IsVisible currentCell \<or> IsMarked currentCell)
             then Inr False
             else checkWinRow field height (width + 1))
      else Inr True)"
  by pat_completeness auto
termination
  by (relation "measure (\<lambda>(field, height, width). nat (Width field - width))") auto

declare checkWinRow.simps [simp del]

text \<open>The outer loop, from row \<open>height\<close> on.\<close>

function checkWinRows :: "playField \<Rightarrow> int \<Rightarrow> panic + bool" where
  "checkWinRows field height =
     (if height < Height field then
        (case checkWinRow field height 0 of
           Inl e \<Rightarrow> Inl e
         | Inr finished \<Rightarrow>
             if finished then checkWinRows field (height + 1) else Inr False)
      else Inr True)"
  by pat_completeness auto
termination
  by (relation "measure (\<lambda>(field, height). nat (Height field - height))") auto

declare checkWinRows.simps [simp del]

definition checkWinResult :: "playField \<Rightarrow> panic + bool" where
  "checkWinResult field = checkWinRows field 0"

text \<open>What the win condition asks of one cell: a cell that is not a black hole is visible and not marked.\<close>

definition safeCellDone :: "playCell \<Rightarrow> bool" where
  "safeCellDone c \<longleftrightarrow> (\<not> IsBlackHole c \<longrightarrow> IsVisible c \<and> \<not> IsMarked c)"

lemma checkWinRow_result:
  assumes "wellFormed field" and "0 \<le> height" and "height < Height field" and "0 \<le> width"
  shows "checkWinRow field height width =
           Inr (\<forall>x. width \<le> x \<and> x < Width field \<longrightarrow> safeCellDone (cellOf field x height))"
  using assms
proof (induction field height width rule: checkWinRow.induct)
  case (1 field height width)
  show ?case
  proof (cases "width < Width field")
    case False
    then show ?thesis by (subst checkWinRow.simps) auto
  next
    case True
    with "1.prems" have ib: "inBounds field width height" by (simp add: inBounds_def)
    have c: "cellAt field (height * Width field + width) = Inr (cellOf field width height)"
      using cellAt_inBounds [OF "1.prems"(1) ib] by (simp add: cellOf_def)
    have split: "(\<forall>x. width \<le> x \<and> x < Width field \<longrightarrow> Q x) \<longleftrightarrow>
        Q width \<and> (\<forall>x. width + 1 \<le> x \<and> x < Width field \<longrightarrow> Q x)" for Q
      using True by (metis add1_zle_eq order_le_less)
    show ?thesis
    proof (cases "safeCellDone (cellOf field width height)")
      case False
      then show ?thesis
        using True c by (subst checkWinRow.simps) (auto simp: safeCellDone_def)
    next
      case good: True
      then have "\<not> (\<not> IsBlackHole (cellOf field width height) \<and>
          (\<not> IsVisible (cellOf field width height) \<or> IsMarked (cellOf field width height)))"
        by (auto simp: safeCellDone_def)
      from "1.IH" [OF True c this] "1.prems"
      have "checkWinRow field height (width + 1) =
          Inr (\<forall>x. width + 1 \<le> x \<and> x < Width field \<longrightarrow> safeCellDone (cellOf field x height))"
        by simp
      then show ?thesis
        using True c good
        by (subst checkWinRow.simps, subst split) (auto simp: safeCellDone_def)
    qed
  qed
qed

lemma checkWinRows_result:
  assumes "wellFormed field" and "0 \<le> height"
  shows "checkWinRows field height =
           Inr (\<forall>y x. height \<le> y \<and> y < Height field \<and> 0 \<le> x \<and> x < Width field \<longrightarrow>
                  safeCellDone (cellOf field x y))"
  using assms
proof (induction field height rule: checkWinRows.induct)
  case (1 field height)
  show ?case
  proof (cases "height < Height field")
    case False
    then show ?thesis by (subst checkWinRows.simps) auto
  next
    case True
    let ?row = "\<forall>x. 0 \<le> x \<and> x < Width field \<longrightarrow> safeCellDone (cellOf field x height)"
    have r: "checkWinRow field height 0 = Inr ?row"
      using checkWinRow_result [OF "1.prems"(1) "1.prems"(2) True, of 0] by simp
    have split: "(\<forall>y. height \<le> y \<and> y < Height field \<longrightarrow> Q y) \<longleftrightarrow>
        Q height \<and> (\<forall>y. height + 1 \<le> y \<and> y < Height field \<longrightarrow> Q y)" for Q
      using True by (metis add1_zle_eq order_le_less)
    show ?thesis
    proof (cases ?row)
      case False
      then show ?thesis
        using True r "1.prems" by (subst checkWinRows.simps) auto
    next
      case row: True
      from "1.IH" [OF True r row] "1.prems"
      have "checkWinRows field (height + 1) =
           Inr (\<forall>y x. height + 1 \<le> y \<and> y < Height field \<and> 0 \<le> x \<and> x < Width field \<longrightarrow>
                  safeCellDone (cellOf field x y))"
        by simp
      moreover have "(\<forall>y x. height \<le> y \<and> y < Height field \<and> 0 \<le> x \<and> x < Width field \<longrightarrow>
                  safeCellDone (cellOf field x y)) \<longleftrightarrow>
            ?row \<and> (\<forall>y x. height + 1 \<le> y \<and> y < Height field \<and> 0 \<le> x \<and> x < Width field \<longrightarrow>
                  safeCellDone (cellOf field x y))"
        using split [of "\<lambda>y. \<forall>x. 0 \<le> x \<and> x < Width field \<longrightarrow> safeCellDone (cellOf field x y)"]
        by auto
      ultimately show ?thesis
        using True r row by (subst checkWinRows.simps) simp
    qed
  qed
qed

text \<open>
  Claim C7. On a well-formed field \<open>checkWinResult\<close> returns true exactly when every cell
  that is not a black hole is visible and not marked. Black holes are not looked at, and
  a safe cell that is hidden or marked makes the result false.
\<close>

theorem checkWinResult_iff:
  assumes "wellFormed field"
  shows "checkWinResult field =
           Inr (\<forall>c \<in> set (Cells field). \<not> IsBlackHole c \<longrightarrow> IsVisible c \<and> \<not> IsMarked c)"
proof -
  have "checkWinResult field =
      Inr (\<forall>y x. 0 \<le> y \<and> y < Height field \<and> 0 \<le> x \<and> x < Width field \<longrightarrow>
                  safeCellDone (cellOf field x y))"
    using checkWinRows_result [OF assms, of 0] by (simp add: checkWinResult_def)
  also have "(\<forall>y x. 0 \<le> y \<and> y < Height field \<and> 0 \<le> x \<and> x < Width field \<longrightarrow>
                  safeCellDone (cellOf field x y)) \<longleftrightarrow>
      (\<forall>c \<in> set (Cells field). safeCellDone c)"
    unfolding all_cells_by_position [OF assms] by (auto simp: inBounds_def)
  finally show ?thesis by (simp add: safeCellDone_def)
qed

text \<open>A won field: the black hole hidden and marked, the safe cell revealed.\<close>

definition wonField :: playField where
  "wonField =
     \<lparr>Width = 2, Height = 1, BlackHoleQuantity = 1,
      Cells = [zeroCell\<lparr>IsBlackHole := True, IsMarked := True\<rparr>,
               zeroCell\<lparr>IsVisible := True, AdjucentBlackHoleQuantity := 1\<rparr>]\<rparr>"

theorem checkWinResult_iff_witness:
  "wellFormed wonField \<and> checkWinResult wonField = Inr True \<and>
   wellFormed wideField \<and> checkWinResult wideField = Inr False"
proof -
  have w1: "wellFormed wonField" by (simp add: wellFormed_def wonField_def)
  have w2: "wellFormed wideField" by (simp add: wellFormed_def wideField_def)
  from checkWinResult_iff [OF w1] checkWinResult_iff [OF w2] w1 w2 show ?thesis
    by (simp add: wonField_def wideField_def zeroCell_def)
qed


section \<open>addBlackHoles\<close>

text \<open>
  The random source is a parameter: the list of the raw numbers it yields, one for each
  call of \<open>rand.Intn\<close>, in order. \<open>rand.Intn(n)\<close> is library code, modelled by its
  contract: a panic for \<open>n \<le> 0\<close>, otherwise a number of the half-open range from 0 to
  \<open>n\<close>, obtained here by reducing the raw number. Reseeding (line 147) changes which
  numbers come, not what the loop does with them.
\<close>

definition Intn :: "int \<Rightarrow> int \<Rightarrow> panic + int" where
  "Intn n raw = (if n \<le> 0 then Inl InvalidIntnArgument else Inr (raw mod n))"

text \<open>
  The loop of lines 146 to 157, one iteration for each number drawn. \<open>None\<close> says that
  the numbers ran out while the loop was still running, so a loop that never ends is
  \<open>None\<close> on every prefix of its random stream. \<open>placed\<close> is a ghost variable: the
  positions at which line 150 has set \<open>IsBlackHole\<close>, in order; it is returned with the
  field and nothing of the loop depends on it. The products of lines 142, 144 and 153
  wrap; the two counters stay below \<open>BlackHoleQuantity\<close> and do not.
\<close>

fun addBlackHolesLoop ::
  "playField \<Rightarrow> int \<Rightarrow> int \<Rightarrow> int \<Rightarrow> int \<Rightarrow> int list \<Rightarrow> int list \<Rightarrow>
     (panic + playField \<times> int list) option" where
  "addBlackHolesLoop field fieldSize maxAttempts attempts blackHoles placed [] =
     (if blackHoles < BlackHoleQuantity field then None else Some (Inr (field, placed)))"
| "addBlackHolesLoop field fieldSize maxAttempts attempts blackHoles placed (raw # draws) =
     (if blackHoles < BlackHoleQuantity field then
        (case Intn fieldSize raw of
           Inl e \<Rightarrow> Some (Inl e)
         | Inr blackHolePos \<Rightarrow>
             (case cellAt field blackHolePos of
                Inl e \<Rightarrow> Some (Inl e)
              | Inr c \<Rightarrow>
                  if \<not> IsBlackHole c then
                    addBlackHolesLoop (setCell field blackHolePos (c\<lparr>IsBlackHole := True\<rparr>))
                      fieldSize maxAttempts (attempts + 1) (blackHoles + 1)
                      (placed @ [blackHolePos]) draws
                  else if attempts \<ge> wrap64 (BlackHoleQuantity field * 100) then
                    Some (Inl (CouldNotGenerate (BlackHoleQuantity field) maxAttempts))
                  else
                    addBlackHolesLoop field fieldSize maxAttempts attempts blackHoles
                      placed draws))
      else Some (Inr (field, placed)))"

definition addBlackHoles :: "playField \<Rightarrow> int list \<Rightarrow> (panic + playField \<times> int list) option" where
  "addBlackHoles field draws =
     (let fieldSize = wrap64 (Width field * Height field);
          attempts = 0;
          maxAttempts = wrap64 (BlackHoleQuantity field * 100);
          blackHoles = 0
      in addBlackHolesLoop field fieldSize maxAttempts attempts blackHoles [] draws)"

text \<open>The indices of the cells that are black holes.\<close>

definition holes :: "playField \<Rightarrow> int set" where
  "holes field = {i. 0 \<le> i \<and> i < int (length (Cells field)) \<and> IsBlackHole (Cells field ! nat i)}"

lemma holes_setCell:
  assumes "cellAt field i = Inr c"
  shows "holes (setCell field i (c\<lparr>IsBlackHole := True\<rparr>)) = insert i (holes field)"
proof -
  from assms have i: "0 \<le> i" "i < int (length (Cells field))"
    by (auto simp: cellAt_def split: if_splits)
  show ?thesis
  proof (rule set_eqI)
    fix j show "j \<in> holes (setCell field i (c\<lparr>IsBlackHole := True\<rparr>)) \<longleftrightarrow> j \<in> insert i (holes field)"
      using i by (cases "j = i") (auto simp: holes_def setCell_def nth_list_update)
  qed
qed

lemma card_holes:
  "card (holes field) = length (filter IsBlackHole (Cells field))"
proof -
  have "holes field = int ` {i. i < length (Cells field) \<and> IsBlackHole (Cells field ! i)}"
    unfolding holes_def
    apply (auto simp: image_iff)
    subgoal for x by (rule exI [of _ "nat x"]) auto
    done
  then have "card (holes field) = card {i. i < length (Cells field) \<and> IsBlackHole (Cells field ! i)}"
    by (simp add: card_image)
  then show ?thesis by (simp add: length_filter_conv_card)
qed

text \<open>
  The invariant of the loop: the ghost list has no repetition and lists exactly the black
  holes of the field, its length is the counter \<open>blackHoles\<close>, and \<open>attempts\<close> equals
  \<open>blackHoles\<close>, since both are incremented on line 151 and 152 only.
\<close>

definition placement :: "playField \<Rightarrow> int \<Rightarrow> int \<Rightarrow> int list \<Rightarrow> bool" where
  "placement field attempts blackHoles placed \<longleftrightarrow>
     distinct placed \<and> set placed = holes field \<and> int (length placed) = blackHoles \<and>
     attempts = blackHoles \<and> blackHoles \<le> BlackHoleQuantity field"

lemma addBlackHolesLoop_invariant:
  assumes "placement field attempts blackHoles placed"
    and "addBlackHolesLoop field fieldSize maxAttempts attempts blackHoles placed draws =
           Some (Inr (field', placed'))"
  shows "placement field' (BlackHoleQuantity field) (BlackHoleQuantity field) placed' \<and>
         Width field' = Width field \<and> Height field' = Height field \<and>
         BlackHoleQuantity field' = BlackHoleQuantity field \<and>
         length (Cells field') = length (Cells field)"
  using assms
proof (induction draws arbitrary: field attempts blackHoles placed)
  case Nil
  then show ?case by (auto simp: placement_def split: if_splits)
next
  case (Cons raw draws)
  show ?case
  proof (cases "blackHoles < BlackHoleQuantity field")
    case False
    with Cons.prems show ?thesis by (auto simp: placement_def)
  next
    case True
    from Cons.prems(1) have inv: "distinct placed" "set placed = holes field"
      "int (length placed) = blackHoles" "attempts = blackHoles"
      by (auto simp: placement_def)
    from Cons.prems(2) True obtain pos c where intn: "Intn fieldSize raw = Inr pos"
      and c: "cellAt field pos = Inr c"
      by (auto split: sum.splits)
    from c have pos: "0 \<le> pos" "pos < int (length (Cells field))" "c = Cells field ! nat pos"
      by (auto simp: cellAt_def split: if_splits)
    show ?thesis
    proof (cases "IsBlackHole c")
      case hole: True
      with Cons.prems(2) True intn c
      have "addBlackHolesLoop field fieldSize maxAttempts attempts blackHoles placed draws =
          Some (Inr (field', placed'))"
        by (auto split: if_splits)
      from Cons.IH [OF Cons.prems(1) this] show ?thesis .
    next
      case False
      let ?field = "setCell field pos (c\<lparr>IsBlackHole := True\<rparr>)"
      from Cons.prems(2) True intn c False
      have run: "addBlackHolesLoop ?field fieldSize maxAttempts (attempts + 1) (blackHoles + 1)
                   (placed @ [pos]) draws = Some (Inr (field', placed'))"
        by simp
      have "pos \<notin> holes field" using False pos by (simp add: holes_def)
      with inv True have "placement ?field (attempts + 1) (blackHoles + 1) (placed @ [pos])"
        by (simp add: placement_def holes_setCell [OF c])
      from Cons.IH [OF this run] show ?thesis by simp
    qed
  qed
qed

text \<open>
  When the number of cells and the budget are computed without wrapping, no run of the
  loop panics: the draws are indices of the slice, and \<open>attempts\<close> is below
  \<open>BlackHoleQuantity\<close>, hence below the budget.
\<close>

lemma addBlackHolesLoop_returns:
  assumes "placement field attempts blackHoles placed"
    and "0 < fieldSize" and "fieldSize = int (length (Cells field))"
    and "BlackHoleQuantity field * 100 < 2 ^ 63"
    and "addBlackHolesLoop field fieldSize maxAttempts attempts blackHoles placed draws = Some r"
  shows "\<exists>field' placed'. r = Inr (field', placed')"
  using assms
proof (induction draws arbitrary: field attempts blackHoles placed)
  case Nil
  then show ?case by (auto split: if_splits)
next
  case (Cons raw draws)
  show ?case
  proof (cases "blackHoles < BlackHoleQuantity field")
    case False
    with Cons.prems show ?thesis by auto
  next
    case True
    from Cons.prems(1) have inv: "distinct placed" "set placed = holes field"
      "int (length placed) = blackHoles" "attempts = blackHoles"
      by (auto simp: placement_def)
    let ?pos = "raw mod fieldSize"
    let ?c = "Cells field ! nat ?pos"
    have pos: "0 \<le> ?pos" "?pos < int (length (Cells field))"
      using Cons.prems(2,3) by auto
    then have c: "cellAt field ?pos = Inr ?c" by (simp add: cellAt_def)
    have intn: "Intn fieldSize raw = Inr ?pos"
      using Cons.prems(2) by (simp add: Intn_def)
    show ?thesis
    proof (cases "IsBlackHole ?c")
      case hole: True
      have "0 \<le> blackHoles" using inv(3) by linarith
      with True have q: "0 \<le> BlackHoleQuantity field * 100" by simp
      with Cons.prems(4) have "wrap64 (BlackHoleQuantity field * 100) = BlackHoleQuantity field * 100"
        by (intro wrap64_id) simp_all
      with True inv(4) \<open>0 \<le> blackHoles\<close>
      have "\<not> attempts \<ge> wrap64 (BlackHoleQuantity field * 100)" by linarith
      with Cons.prems(5) True intn c hole
      have "addBlackHolesLoop field fieldSize maxAttempts attempts blackHoles placed draws = Some r"
        by simp
      from Cons.IH [OF Cons.prems(1,2,3,4) this] show ?thesis .
    next
      case False
      let ?field = "setCell field ?pos (?c\<lparr>IsBlackHole := True\<rparr>)"
      from Cons.prems(5) True intn c False
      have run: "addBlackHolesLoop ?field fieldSize maxAttempts (attempts + 1) (blackHoles + 1)
                   (placed @ [?pos]) draws = Some r"
        by simp
      have "?pos \<notin> holes field" using False pos by (simp add: holes_def)
      with inv True have "placement ?field (attempts + 1) (blackHoles + 1) (placed @ [?pos])"
        by (simp add: placement_def holes_setCell [OF c])
      from Cons.IH [OF this Cons.prems(2) _ _ run] Cons.prems(3,4) show ?thesis by simp
    qed
  qed
qed

lemma holes_fresh:
  "\<forall>c \<in> set (Cells field). \<not> IsBlackHole c \<Longrightarrow> holes field = {}"
  by (auto simp: holes_def)

text \<open>
  Claim C10. On a well-formed field without black holes and with a non-negative
  \<open>BlackHoleQuantity\<close>, for every random stream on which \<open>addBlackHoles\<close> ends: when it
  returns, exactly \<open>BlackHoleQuantity\<close> cells are black holes afterwards, and the
  positions at which the flag was set are pairwise distinct, \<open>BlackHoleQuantity\<close> many,
  and exactly the black holes of the result, with the dimensions and the number of cells
  unchanged. And it does return, rather than panic, whenever the number of cells and a
  hundred times \<open>BlackHoleQuantity\<close> fit 64 bits, as they do on every field that
  \<open>NewPlayField\<close> makes in memory, where \<open>BlackHoleQuantity\<close> is at most the number of
  cells. (Beyond that the budget wraps, and the run can end in the panic of line 154.)
\<close>

theorem addBlackHoles_exact:
  assumes "wellFormed field" and "\<forall>c \<in> set (Cells field). \<not> IsBlackHole c"
    and "0 \<le> BlackHoleQuantity field"
    and "addBlackHoles field draws = Some r"
  shows "(\<forall>field' placed. r = Inr (field', placed) \<longrightarrow>
            length (filter IsBlackHole (Cells field')) = nat (BlackHoleQuantity field) \<and>
            distinct placed \<and> length placed = nat (BlackHoleQuantity field) \<and>
            set placed = holes field' \<and>
            Width field' = Width field \<and> Height field' = Height field \<and>
            BlackHoleQuantity field' = BlackHoleQuantity field \<and>
            length (Cells field') = length (Cells field)) \<and>
         (Width field * Height field < 2 ^ 63 \<and> BlackHoleQuantity field * 100 < 2 ^ 63 \<longrightarrow>
            (\<exists>field' placed. r = Inr (field', placed)))"
proof -
  have start: "placement field 0 0 []"
    using assms(2,3) by (simp add: placement_def holes_fresh)
  from assms(4) have run: "addBlackHolesLoop field (wrap64 (Width field * Height field))
      (wrap64 (BlackHoleQuantity field * 100)) 0 0 [] draws = Some r"
    by (simp add: addBlackHoles_def)
  have exact: "length (filter IsBlackHole (Cells field')) = nat (BlackHoleQuantity field) \<and>
      distinct placed \<and> length placed = nat (BlackHoleQuantity field) \<and>
      set placed = holes field' \<and>
      Width field' = Width field \<and> Height field' = Height field \<and>
      BlackHoleQuantity field' = BlackHoleQuantity field \<and>
      length (Cells field') = length (Cells field)" if r: "r = Inr (field', placed)"
    for field' placed
  proof -
    from addBlackHolesLoop_invariant [OF start run [unfolded r]]
    have p: "placement field' (BlackHoleQuantity field) (BlackHoleQuantity field) placed"
      and shape: "Width field' = Width field" "Height field' = Height field"
        "BlackHoleQuantity field' = BlackHoleQuantity field"
        "length (Cells field') = length (Cells field)"
      by simp_all
    from p have d: "distinct placed" and s: "set placed = holes field'"
      and l: "int (length placed) = BlackHoleQuantity field"
      by (auto simp: placement_def)
    from d s have "card (holes field') = length placed" by (metis distinct_card)
    with l have "length (filter IsBlackHole (Cells field')) = nat (BlackHoleQuantity field)"
      by (simp add: card_holes [symmetric])
    with d s l shape show ?thesis by auto
  qed
  have returns: "\<exists>field' placed. r = Inr (field', placed)"
    if small: "Width field * Height field < 2 ^ 63" "BlackHoleQuantity field * 100 < 2 ^ 63"
  proof -
    from assms(1) have size: "0 < Width field * Height field"
      "Width field * Height field = int (length (Cells field))"
      by (auto simp: wellFormed_def)
    with small(1) have w: "wrap64 (Width field * Height field) = Width field * Height field"
      by (intro wrap64_id) simp_all
    from run have "addBlackHolesLoop field (Width field * Height field)
        (wrap64 (BlackHoleQuantity field * 100)) 0 0 [] draws = Some r"
      by (simp only: w)
    from addBlackHolesLoop_returns [OF start size small(2) this] show ?thesis .
  qed
  from exact returns show ?thesis by blast
qed

text \<open>A field of two cells that are both to become black holes.\<close>

definition twoHoleField :: playField where
  "twoHoleField =
     \<lparr>Width = 2, Height = 1, BlackHoleQuantity = 2, Cells = [zeroCell, zeroCell]\<rparr>"

theorem addBlackHoles_exact_witness:
  "wellFormed twoHoleField \<and> map IsBlackHole (Cells twoHoleField) = [False, False] \<and>
   0 \<le> BlackHoleQuantity twoHoleField \<and>
   addBlackHoles twoHoleField [0, 0, 1] =
     Some (Inr (twoHoleField\<lparr>Cells :=
       [zeroCell\<lparr>IsBlackHole := True\<rparr>, zeroCell\<lparr>IsBlackHole := True\<rparr>]\<rparr>, [0, 1])) \<and>
   length (filter IsBlackHole
     [zeroCell\<lparr>IsBlackHole := True\<rparr>, zeroCell\<lparr>IsBlackHole := True\<rparr>]) = 2 \<and>
   distinct [0, 1 :: int]"
proof -
  have wf: "wellFormed twoHoleField" by (simp add: wellFormed_def twoHoleField_def)
  have fresh: "\<forall>c \<in> set (Cells twoHoleField). \<not> IsBlackHole c"
    by (simp add: twoHoleField_def zeroCell_def)
  have q: "0 \<le> BlackHoleQuantity twoHoleField" by (simp add: twoHoleField_def)
  have run: "addBlackHoles twoHoleField [0, 0, 1] =
     Some (Inr (twoHoleField\<lparr>Cells :=
       [zeroCell\<lparr>IsBlackHole := True\<rparr>, zeroCell\<lparr>IsBlackHole := True\<rparr>]\<rparr>, [0, 1]))"
    by (simp add: addBlackHoles_def twoHoleField_def Intn_def cellAt_def setCell_def
        zeroCell_def wrap64_def)
  have z: "map IsBlackHole (Cells twoHoleField) = [False, False]"
    by (simp add: twoHoleField_def zeroCell_def)
  from addBlackHoles_exact [OF wf fresh q run] wf z q run show ?thesis
    by (simp add: twoHoleField_def zeroCell_def)
qed

lemma addBlackHolesLoop_collisions:
  assumes "blackHoles < BlackHoleQuantity field"
    and "attempts < wrap64 (BlackHoleQuantity field * 100)"
    and "0 < fieldSize" and "cellAt field (raw mod fieldSize) = Inr c" and "IsBlackHole c"
  shows "addBlackHolesLoop field fieldSize maxAttempts attempts blackHoles placed
           (replicate n raw @ draws) =
         addBlackHolesLoop field fieldSize maxAttempts attempts blackHoles placed draws"
  using assms by (induction n) (simp_all add: Intn_def)

text \<open>
  Claim C3, at the field \<open>NewPlayField(2, 1, 2)\<close>, whose retry budget is 200. On the
  random stream 0, then 200 times 0 again, then 1, the loop meets 200 collisions and
  still returns normally with both black holes placed: \<open>attempts\<close> counts placements,
  not collisions, and never reaches the budget. On the stream of zeros only the loop is
  still running after every number of draws: it neither returns nor panics.
\<close>

theorem addBlackHoles_budget_never_exhausted:
  "NewPlayField 2 1 2 = Inr twoHoleField \<and>
   addBlackHoles twoHoleField (0 # replicate 200 0 @ [1]) =
     Some (Inr (twoHoleField\<lparr>Cells :=
       [zeroCell\<lparr>IsBlackHole := True\<rparr>, zeroCell\<lparr>IsBlackHole := True\<rparr>]\<rparr>, [0, 1])) \<and>
   (\<forall>n. addBlackHoles twoHoleField (replicate n 0) = None)"
proof -
  let ?one = "twoHoleField\<lparr>Cells := [zeroCell\<lparr>IsBlackHole := True\<rparr>, zeroCell]\<rparr>"
  have new: "NewPlayField 2 1 2 = Inr twoHoleField"
    by (simp add: NewPlayField_def twoHoleField_def numeral_2_eq_2 wrap64_def)
  have first: "addBlackHoles twoHoleField (0 # draws) = addBlackHolesLoop ?one 2 200 1 1 [0] draws"
    for draws
    by (simp add: addBlackHoles_def twoHoleField_def Intn_def cellAt_def setCell_def zeroCell_def
        wrap64_def)
  have collide: "addBlackHolesLoop ?one 2 200 1 1 [0] (replicate n 0 @ draws) =
      addBlackHolesLoop ?one 2 200 1 1 [0] draws" for n draws
    by (rule addBlackHolesLoop_collisions [where c = "zeroCell\<lparr>IsBlackHole := True\<rparr>"])
       (simp_all add: twoHoleField_def cellAt_def wrap64_def)
  have last: "addBlackHolesLoop ?one 2 200 1 1 [0] [1] =
      Some (Inr (twoHoleField\<lparr>Cells :=
        [zeroCell\<lparr>IsBlackHole := True\<rparr>, zeroCell\<lparr>IsBlackHole := True\<rparr>]\<rparr>, [0, 1]))"
    by (simp add: twoHoleField_def Intn_def cellAt_def setCell_def zeroCell_def)
  have run: "addBlackHoles twoHoleField (0 # replicate 200 0 @ [1]) =
      Some (Inr (twoHoleField\<lparr>Cells :=
        [zeroCell\<lparr>IsBlackHole := True\<rparr>, zeroCell\<lparr>IsBlackHole := True\<rparr>]\<rparr>, [0, 1]))"
    by (simp only: first collide last)
  have forever: "addBlackHoles twoHoleField (replicate n 0) = None" for n
  proof (cases n)
    case 0
    then show ?thesis by (simp add: addBlackHoles_def twoHoleField_def)
  next
    case (Suc m)
    have "addBlackHoles twoHoleField (replicate n 0) =
        addBlackHolesLoop ?one 2 200 1 1 [0] (replicate m 0 @ [])"
      unfolding Suc by (simp add: first)
    also have "\<dots> = addBlackHolesLoop ?one 2 200 1 1 [0] []" by (rule collide)
    also have "\<dots> = None" by (simp add: twoHoleField_def)
    finally show ?thesis .
  qed
  from new run forever show ?thesis by blast
qed

section \<open>addAdjacentBlackHoles\<close>

lemma index_div_mod:
  assumes "wellFormed field" and "inBounds field width height"
  shows "(height * Width field + width) div Width field = height"
    and "(height * Width field + width) mod Width field = width"
  using assms by (auto simp: wellFormed_def inBounds_def)

lemma index_inj:
  assumes "wellFormed field" and "inBounds field width height" and "inBounds field width' height'"
    and "height * Width field + width = height' * Width field + width'"
  shows "width = width' \<and> height = height'"
  using index_div_mod [OF assms(1,2)] index_div_mod [OF assms(1,3)] assms(4) by simp

text \<open>
  \<open>currentCell.AdjucentBlackHoleQuantity++\<close> through the pointer
  \<open>&field.Cells[currentPos]\<close>, which line 166 has found in range.
\<close>

definition incrementAdjacent :: "playField \<Rightarrow> int \<Rightarrow> playField" where
  "incrementAdjacent field currentPos =
     (let currentCell = Cells field ! nat currentPos
      in setCell field currentPos
           (currentCell\<lparr>AdjucentBlackHoleQuantity := AdjucentBlackHoleQuantity currentCell + 1\<rparr>))"

text \<open>
  One of the eight statements
  \<open>if guard && field.Cells[neighbourPos].IsBlackHole { currentCell.AdjucentBlackHoleQuantity++ }\<close>:
  the slice is read only when the guard holds.
\<close>

definition countNeighbour :: "bool \<Rightarrow> int \<Rightarrow> int \<Rightarrow> playField \<Rightarrow> panic + playField" where
  "countNeighbour guard neighbourPos currentPos field =
     (if guard then
        (case cellAt field neighbourPos of
           Inl e \<Rightarrow> Inl e
         | Inr neighbour \<Rightarrow>
             if IsBlackHole neighbour then Inr (incrementAdjacent field currentPos)
             else Inr field)
      else Inr field)"

text \<open>The statements of one cell, run in order.\<close>

fun countNeighbours :: "(bool \<times> int) list \<Rightarrow> int \<Rightarrow> playField \<Rightarrow> panic + playField" where
  "countNeighbours [] currentPos field = Inr field"
| "countNeighbours ((guard, neighbourPos) # checks) currentPos field =
     (case countNeighbour guard neighbourPos currentPos field of
        Inl e \<Rightarrow> Inl e
      | Inr field' \<Rightarrow> countNeighbours checks currentPos field')"

text \<open>
  The guards and neighbour positions of lines 167 to 198, in the order of the source:
  left, right, up, down, left-up, left-down, right-up, right-down.
\<close>

definition neighbourChecks :: "playField \<Rightarrow> int \<Rightarrow> int \<Rightarrow> int \<Rightarrow> (bool \<times> int) list" where
  "neighbourChecks field height width currentPos =
     [(width > 0, currentPos - 1),
      (width < Width field - 1, currentPos + 1),
      (height > 0, currentPos - Width field),
      (height < Height field - 1, currentPos + Width field),
      (width > 0 \<and> height > 0, currentPos - Width field - 1),
      (width > 0 \<and> height < Height field - 1, currentPos + Width field - 1),
      (width < Width field - 1 \<and> height > 0, currentPos - Width field + 1),
      (width < Width field - 1 \<and> height < Height field - 1, currentPos + Width field + 1)]"

text \<open>The body of the inner loop, lines 164 to 198.\<close>

definition countAdjacent :: "playField \<Rightarrow> int \<Rightarrow> int \<Rightarrow> panic + playField" where
  "countAdjacent field height width =
     (let rowBias = height * Width field;
          currentPos = rowBias + width
      in case cellAt field currentPos of
           Inl e \<Rightarrow> Inl e
         | Inr currentCell \<Rightarrow>
             countNeighbours (neighbourChecks field height width currentPos) currentPos field)"

text \<open>Two fields with the same dimensions, quantity and number of cells.\<close>

definition sameShape :: "playField \<Rightarrow> playField \<Rightarrow> bool" where
  "sameShape field field' \<longleftrightarrow>
     Width field' = Width field \<and> Height field' = Height field \<and>
     BlackHoleQuantity field' = BlackHoleQuantity field \<and>
     length (Cells field') = length (Cells field)"

lemma countNeighbour_shape:
  "countNeighbour guard neighbourPos currentPos field = Inr field' \<Longrightarrow> sameShape field field'"
  by (auto simp: countNeighbour_def incrementAdjacent_def sameShape_def Let_def
      split: if_splits sum.splits)

lemma countNeighbours_shape:
  "countNeighbours checks currentPos field = Inr field' \<Longrightarrow> sameShape field field'"
proof (induction checks arbitrary: field)
  case Nil
  then show ?case by (simp add: sameShape_def)
next
  case (Cons check checks)
  obtain guard pos where check: "check = (guard, pos)" by (cases check)
  from Cons.prems obtain field1 where
    one: "countNeighbour guard pos currentPos field = Inr field1"
    and rest: "countNeighbours checks currentPos field1 = Inr field'"
    by (auto simp: check split: sum.splits)
  from countNeighbour_shape [OF one] Cons.IH [OF rest] show ?case
    by (simp add: sameShape_def)
qed

lemma countAdjacent_shape:
  "countAdjacent field height width = Inr field' \<Longrightarrow> sameShape field field'"
  by (auto simp: countAdjacent_def Let_def split: sum.splits dest: countNeighbours_shape)

text \<open>The inner loop, from column \<open>width\<close> on, and the outer loop, from row \<open>height\<close> on.\<close>

function adjacentRow :: "playField \<Rightarrow> int \<Rightarrow> int \<Rightarrow> panic + playField" where
  "adjacentRow field height width =
     (if width < Width field then
        (case countAdjacent field height width of
           Inl e \<Rightarrow> Inl e
         | Inr field' \<Rightarrow> adjacentRow field' height (width + 1))
      else Inr field)"
  by pat_completeness auto
termination
  by (relation "measure (\<lambda>(field, height, width). nat (Width field - width))")
     (auto dest: countAdjacent_shape simp: sameShape_def)

declare adjacentRow.simps [simp del]

lemma adjacentRow_shape:
  "adjacentRow field height width = Inr field' \<Longrightarrow> sameShape field field'"
proof (induction field height width rule: adjacentRow.induct)
  case (1 field height width)
  show ?case
  proof (cases "width < Width field")
    case True
    with "1.prems" obtain field1 where c: "countAdjacent field height width = Inr field1"
      and r: "adjacentRow field1 height (width + 1) = Inr field'"
      by (subst (asm) adjacentRow.simps) (auto split: sum.splits)
    from "1.IH" [OF True c r] countAdjacent_shape [OF c] show ?thesis
      by (simp add: sameShape_def)
  next
    case False
    with "1.prems" show ?thesis
      by (subst (asm) adjacentRow.simps) (simp add: sameShape_def)
  qed
qed

function adjacentRows :: "playField \<Rightarrow> int \<Rightarrow> panic + playField" where
  "adjacentRows field height =
     (if height < Height field then
        (case adjacentRow field height 0 of
           Inl e \<Rightarrow> Inl e
         | Inr field' \<Rightarrow> adjacentRows field' (height + 1))
      else Inr field)"
  by pat_completeness auto
termination
  by (relation "measure (\<lambda>(field, height). nat (Height field - height))")
     (auto dest: adjacentRow_shape simp: sameShape_def)

declare adjacentRows.simps [simp del]

definition addAdjacentBlackHoles :: "playField \<Rightarrow> panic + playField" where
  "addAdjacentBlackHoles field = adjacentRows field 0"

text \<open>
  The specification's count: the neighbours of a position are the up to eight positions
  that differ from it by at most one in each coordinate, and those outside the field are
  skipped.
\<close>

definition neighbours8 :: "int \<Rightarrow> int \<Rightarrow> (int \<times> int) list" where
  "neighbours8 width height =
     [(x, y). x \<leftarrow> [width - 1, width, width + 1], y \<leftarrow> [height - 1, height, height + 1],
              (x, y) \<noteq> (width, height)]"

definition adjacentHoles :: "playField \<Rightarrow> int \<Rightarrow> int \<Rightarrow> nat" where
  "adjacentHoles field width height =
     length (filter (\<lambda>(x, y). inBounds field x y \<and> IsBlackHole (cellOf field x y))
       (neighbours8 width height))"

text \<open>The field with \<open>k\<close> added to the counter of the cell at \<open>pos\<close>.\<close>

definition addAdjacent :: "playField \<Rightarrow> int \<Rightarrow> nat \<Rightarrow> playField" where
  "addAdjacent field pos k =
     setCell field pos ((Cells field ! nat pos)
       \<lparr>AdjucentBlackHoleQuantity := AdjucentBlackHoleQuantity (Cells field ! nat pos) + of_nat k\<rparr>)"

text \<open>How many statements of a list increment the counter.\<close>

definition hits :: "playField \<Rightarrow> (bool \<times> int) list \<Rightarrow> nat" where
  "hits field checks =
     length (filter (\<lambda>(guard, pos). guard \<and> IsBlackHole (Cells field ! nat pos)) checks)"

lemma addAdjacent_0: "0 \<le> pos \<Longrightarrow> pos < int (length (Cells field)) \<Longrightarrow> addAdjacent field pos 0 = field"
  by (simp add: addAdjacent_def setCell_def)

lemma hits_addAdjacent [simp]: "hits (addAdjacent field pos k) checks = hits field checks"
proof -
  have "IsBlackHole (Cells (addAdjacent field pos k) ! i) = IsBlackHole (Cells field ! i)" for i
  proof (cases "i = nat pos")
    case False
    then show ?thesis by (simp add: addAdjacent_def setCell_def)
  next
    case True
    then show ?thesis
      by (cases "i < length (Cells field)")
         (simp_all add: addAdjacent_def setCell_def list_update_beyond)
  qed
  then show ?thesis by (simp add: hits_def)
qed

lemma addAdjacent_addAdjacent:
  "0 \<le> pos \<Longrightarrow> pos < int (length (Cells field)) \<Longrightarrow>
   addAdjacent (addAdjacent field pos a) pos b = addAdjacent field pos (a + b)"
  by (simp add: addAdjacent_def setCell_def add.assoc)

lemma countNeighbours_result:
  assumes "0 \<le> currentPos" and "currentPos < int (length (Cells field))"
    and "\<forall>(guard, pos) \<in> set checks. guard \<longrightarrow> 0 \<le> pos \<and> pos < int (length (Cells field))"
  shows "countNeighbours checks currentPos field =
           Inr (addAdjacent field currentPos (hits field checks))"
  using assms
proof (induction checks arbitrary: field)
  case Nil
  then show ?case by (simp add: hits_def addAdjacent_0)
next
  case (Cons check checks)
  obtain guard pos where check: "check = (guard, pos)" by (cases check)
  let ?k = "if guard \<and> IsBlackHole (Cells field ! nat pos) then 1 else 0 :: nat"
  have one: "countNeighbour guard pos currentPos field = Inr (addAdjacent field currentPos ?k)"
  proof (cases "guard \<and> IsBlackHole (Cells field ! nat pos)")
    case True
    with Cons.prems show ?thesis
      by (simp add: check countNeighbour_def cellAt_def incrementAdjacent_def addAdjacent_def
          Let_def)
  next
    case False
    with Cons.prems show ?thesis
      by (auto simp: check countNeighbour_def cellAt_def addAdjacent_0)
  qed
  have "countNeighbours checks currentPos (addAdjacent field currentPos ?k) =
      Inr (addAdjacent (addAdjacent field currentPos ?k) currentPos
             (hits (addAdjacent field currentPos ?k) checks))"
    using Cons.prems by (intro Cons.IH) (auto simp: addAdjacent_def)
  then show ?case
    using Cons.prems(1,2)
    by (simp add: check one addAdjacent_addAdjacent) (simp add: hits_def)
qed


lemma length_filter_sum:
  "length (filter P xs) = (\<Sum>x\<leftarrow>xs. of_bool (P x))"
  by (induction xs) simp_all

lemma neighbour_index:
  assumes "wellFormed field" and "inBounds field (width + dx) (height + dy)"
  shows "0 \<le> height * Width field + width + (dy * Width field + dx)"
    and "height * Width field + width + (dy * Width field + dx) < int (length (Cells field))"
    and "cellOf field (width + dx) (height + dy) =
           Cells field ! nat (height * Width field + width + (dy * Width field + dx))"
proof -
  have eq: "(height + dy) * Width field + (width + dx) =
      height * Width field + width + (dy * Width field + dx)"
    by (simp add: algebra_simps)
  from index_in_range [OF assms] show "0 \<le> height * Width field + width + (dy * Width field + dx)"
    and "height * Width field + width + (dy * Width field + dx) < int (length (Cells field))"
    unfolding eq by simp_all
  show "cellOf field (width + dx) (height + dy) =
           Cells field ! nat (height * Width field + width + (dy * Width field + dx))"
    unfolding cellOf_def eq ..
qed

definition holeAt :: "playField \<Rightarrow> int \<Rightarrow> int \<Rightarrow> bool" where
  "holeAt field x y \<longleftrightarrow> inBounds field x y \<and> IsBlackHole (cellOf field x y)"

lemma countAdjacent_result:
  assumes wf: "wellFormed field" and ib: "inBounds field width height"
  shows "countAdjacent field height width =
           Inr (addAdjacent field (height * Width field + width)
                  (adjacentHoles field width height))"
proof -
  let ?W = "Width field"
  let ?pos = "height * ?W + width"
  let ?checks = "neighbourChecks field height width ?pos"
  note pos = index_in_range [OF wf ib]
  have nb: "guard \<Longrightarrow> 0 \<le> ?pos + (dy * ?W + dx) \<and> ?pos + (dy * ?W + dx) < int (length (Cells field))"
    if "guard \<longleftrightarrow> inBounds field (width + dx) (height + dy)" for guard dx dy
    using neighbour_index(1,2) [OF wf, of width dx height dy] that by simp
  have g: "(0 < width) = inBounds field (width + (-1)) (height + 0)"
    "(width < ?W - 1) = inBounds field (width + 1) (height + 0)"
    "(0 < height) = inBounds field (width + 0) (height + (-1))"
    "(height < Height field - 1) = inBounds field (width + 0) (height + 1)"
    "(0 < width \<and> 0 < height) = inBounds field (width + (-1)) (height + (-1))"
    "(0 < width \<and> height < Height field - 1) = inBounds field (width + (-1)) (height + 1)"
    "(width < ?W - 1 \<and> 0 < height) = inBounds field (width + 1) (height + (-1))"
    "(width < ?W - 1 \<and> height < Height field - 1) = inBounds field (width + 1) (height + 1)"
    using ib by (auto simp: inBounds_def)
  have range: "\<forall>(guard, p) \<in> set ?checks. guard \<longrightarrow> 0 \<le> p \<and> p < int (length (Cells field))"
    using nb [OF g(1)] nb [OF g(2)] nb [OF g(3)] nb [OF g(4)]
      nb [OF g(5)] nb [OF g(6)] nb [OF g(7)] nb [OF g(8)]
    by (auto simp: neighbourChecks_def)
  have h: "(guard \<and> IsBlackHole (Cells field ! nat p)) = holeAt field x y"
    if "guard \<longleftrightarrow> inBounds field (width + dx) (height + dy)"
      and "p = ?pos + (dy * ?W + dx)" and "x = width + dx" and "y = height + dy"
    for guard dx dy p x y
    using neighbour_index(3) [OF wf, of width dx height dy] that by (auto simp: holeAt_def)
  have h1: "(0 < width \<and> IsBlackHole (Cells field ! nat (?pos - 1))) =
      holeAt field (width - 1) height"
    by (rule h [OF g(1)]) simp_all
  have h2: "(width < ?W - 1 \<and> IsBlackHole (Cells field ! nat (?pos + 1))) =
      holeAt field (width + 1) height"
    by (rule h [OF g(2)]) simp_all
  have h3: "(0 < height \<and> IsBlackHole (Cells field ! nat (?pos - ?W))) =
      holeAt field width (height - 1)"
    by (rule h [OF g(3)]) simp_all
  have h4: "(height < Height field - 1 \<and> IsBlackHole (Cells field ! nat (?pos + ?W))) =
      holeAt field width (height + 1)"
    by (rule h [OF g(4)]) simp_all
  have h5: "(0 < width \<and> 0 < height \<and> IsBlackHole (Cells field ! nat (?pos - ?W - 1))) =
      holeAt field (width - 1) (height - 1)"
    using h [OF g(5), of "?pos - ?W - 1" "width - 1" "height - 1"] by simp
  have h6: "(0 < width \<and> height < Height field - 1 \<and>
      IsBlackHole (Cells field ! nat (?pos + ?W - 1))) = holeAt field (width - 1) (height + 1)"
    using h [OF g(6), of "?pos + ?W - 1" "width - 1" "height + 1"] by simp
  have h7: "(width < ?W - 1 \<and> 0 < height \<and> IsBlackHole (Cells field ! nat (?pos - ?W + 1))) =
      holeAt field (width + 1) (height - 1)"
    using h [OF g(7), of "?pos - ?W + 1" "width + 1" "height - 1"] by simp
  have h8: "(width < ?W - 1 \<and> height < Height field - 1 \<and>
      IsBlackHole (Cells field ! nat (?pos + ?W + 1))) = holeAt field (width + 1) (height + 1)"
    using h [OF g(8), of "?pos + ?W + 1" "width + 1" "height + 1"] by simp
  have "hits field ?checks =
     of_bool (holeAt field (width - 1) height) +
     of_bool (holeAt field (width + 1) height) +
     of_bool (holeAt field width (height - 1)) +
     of_bool (holeAt field width (height + 1)) +
     of_bool (holeAt field (width - 1) (height - 1)) +
     of_bool (holeAt field (width - 1) (height + 1)) +
     of_bool (holeAt field (width + 1) (height - 1)) +
     of_bool (holeAt field (width + 1) (height + 1))"
    by (simp add: hits_def neighbourChecks_def length_filter_sum h1 h2 h3 h4 h5 h6 h7 h8)
  also have "\<dots> = adjacentHoles field width height"
    by (simp add: adjacentHoles_def neighbours8_def length_filter_sum holeAt_def)
  finally have hits: "hits field ?checks = adjacentHoles field width height" .
  have "cellAt field ?pos = Inr (Cells field ! nat ?pos)"
    by (rule cellAt_inBounds [OF wf ib])
  then show ?thesis
    using countNeighbours_result [OF pos range] by (simp add: countAdjacent_def Let_def hits)
qed


lemma sint_small: "k \<le> 8 \<Longrightarrow> sint (of_nat k :: 8 word) = int k"
  by (simp add: signed_of_nat signed_take_bit_int_eq_self)

lemma adjacentHoles_le: "adjacentHoles field width height \<le> 8"
proof -
  have "adjacentHoles field width height \<le> length (neighbours8 width height)"
    unfolding adjacentHoles_def by (rule length_filter_le)
  also have "\<dots> = 8" by (simp add: neighbours8_def)
  finally show ?thesis .
qed

text \<open>
  The invariant of the two loops: the cells before linear position \<open>n\<close> have their
  counter raised by the number of adjacent black holes, the others are untouched.
\<close>

definition withCount :: "playField \<Rightarrow> int \<Rightarrow> int \<Rightarrow> playCell" where
  "withCount field width height =
     (cellOf field width height)
       \<lparr>AdjucentBlackHoleQuantity :=
          AdjucentBlackHoleQuantity (cellOf field width height) +
          of_nat (adjacentHoles field width height)\<rparr>"

definition counted :: "playField \<Rightarrow> int \<Rightarrow> playField \<Rightarrow> bool" where
  "counted field0 n field \<longleftrightarrow>
     sameShape field0 field \<and>
     (\<forall>width height. inBounds field0 width height \<longrightarrow>
        cellOf field width height =
          (if height * Width field0 + width < n then withCount field0 width height
           else cellOf field0 width height))"

lemma counted_wellFormed:
  "wellFormed field0 \<Longrightarrow> counted field0 n field \<Longrightarrow> wellFormed field"
  by (simp add: counted_def sameShape_def wellFormed_def)

lemma counted_adjacentHoles:
  assumes "counted field0 n field"
  shows "adjacentHoles field width height = adjacentHoles field0 width height"
proof -
  have "(inBounds field x y \<and> IsBlackHole (cellOf field x y)) =
      (inBounds field0 x y \<and> IsBlackHole (cellOf field0 x y))" for x y
  proof (cases "inBounds field0 x y")
    case True
    with assms have "cellOf field x y = withCount field0 x y \<or> cellOf field x y = cellOf field0 x y"
      by (auto simp: counted_def)
    then have "IsBlackHole (cellOf field x y) = IsBlackHole (cellOf field0 x y)"
      by (auto simp: withCount_def)
    with assms show ?thesis by (simp add: counted_def sameShape_def inBounds_def)
  next
    case False
    with assms show ?thesis by (auto simp: counted_def sameShape_def inBounds_def)
  qed
  then show ?thesis by (simp add: adjacentHoles_def)
qed

lemma cellOf_addAdjacent:
  assumes "wellFormed field" and "inBounds field width height" and "inBounds field x y"
  shows "cellOf (addAdjacent field (height * Width field + width) k) x y =
           (if x = width \<and> y = height
            then (cellOf field width height)
                   \<lparr>AdjucentBlackHoleQuantity :=
                      AdjucentBlackHoleQuantity (cellOf field width height) + of_nat k\<rparr>
            else cellOf field x y)"
proof (cases "x = width \<and> y = height")
  case True
  with index_in_range [OF assms(1,2)] show ?thesis
    by (simp add: cellOf_def addAdjacent_def setCell_def)
next
  case False
  with index_inj [OF assms(1,3,2)] have "y * Width field + x \<noteq> height * Width field + width"
    by blast
  moreover note index_in_range [OF assms(1,2)] index_in_range [OF assms(1,3)]
  ultimately have "nat (y * Width field + x) \<noteq> nat (height * Width field + width)"
    by linarith
  with False show ?thesis
    by (auto simp: cellOf_def addAdjacent_def setCell_def)
qed

lemma addAdjacent_shape: "sameShape field (addAdjacent field pos k)"
  by (simp add: sameShape_def addAdjacent_def)

lemma countAdjacent_counted:
  assumes wf: "wellFormed field0" and inv: "counted field0 (height * Width field0 + width) field"
    and ib: "inBounds field0 width height"
  shows "\<exists>field'. countAdjacent field height width = Inr field' \<and>
           counted field0 (height * Width field0 + width + 1) field'"
proof -
  from inv have shape: "sameShape field0 field" by (simp add: counted_def)
  then have W: "Width field = Width field0" and ibeq: "inBounds field = inBounds field0"
    by (auto simp: sameShape_def inBounds_def fun_eq_iff)
  have wf': "wellFormed field" by (rule counted_wellFormed [OF wf inv])
  from ib have ib': "inBounds field width height" by (simp add: ibeq)
  let ?field' = "addAdjacent field (height * Width field + width) (adjacentHoles field0 width height)"
  have run: "countAdjacent field height width = Inr ?field'"
    using countAdjacent_result [OF wf' ib'] by (simp add: counted_adjacentHoles [OF inv])
  have here: "cellOf field width height = cellOf field0 width height"
    using inv ib by (simp add: counted_def)
  have "cellOf ?field' x y =
          (if y * Width field0 + x < height * Width field0 + width + 1 then withCount field0 x y
           else cellOf field0 x y)" if xy: "inBounds field0 x y" for x y
  proof (cases "x = width \<and> y = height")
    case True
    with cellOf_addAdjacent [OF wf' ib' ib'] here show ?thesis
      by (simp add: withCount_def)
  next
    case False
    with index_inj [OF wf xy ib] have "y * Width field0 + x \<noteq> height * Width field0 + width"
      by blast
    then have "(y * Width field0 + x < height * Width field0 + width + 1) =
        (y * Width field0 + x < height * Width field0 + width)"
      by linarith
    moreover from xy have "inBounds field x y" by (simp add: ibeq)
    from cellOf_addAdjacent [OF wf' ib' this] False
    have "cellOf ?field' x y = cellOf field x y" by simp
    ultimately show ?thesis using inv xy by (simp add: counted_def)
  qed
  moreover have "sameShape field0 ?field'"
    using shape addAdjacent_shape [of field] by (simp add: sameShape_def)
  ultimately have "counted field0 (height * Width field0 + width + 1) ?field'"
    by (simp add: counted_def)
  with run show ?thesis by blast
qed

lemma adjacentRow_counted:
  assumes "wellFormed field0" and "counted field0 (height * Width field0 + width) field"
    and "0 \<le> height" and "height < Height field0" and "0 \<le> width" and "width \<le> Width field0"
  shows "\<exists>field'. adjacentRow field height width = Inr field' \<and>
           counted field0 ((height + 1) * Width field0) field'"
  using assms
proof (induction field height width rule: adjacentRow.induct)
  case (1 field height width)
  from "1.prems"(2) have W: "Width field = Width field0"
    by (simp add: counted_def sameShape_def)
  show ?case
  proof (cases "width < Width field")
    case False
    with "1.prems" W have "width = Width field0" by simp
    with "1.prems"(2) False show ?thesis
      by (subst adjacentRow.simps) (simp add: algebra_simps)
  next
    case True
    with "1.prems" W have ib: "inBounds field0 width height" by (simp add: inBounds_def)
    from countAdjacent_counted [OF "1.prems"(1,2) ib] obtain field1 where
      c: "countAdjacent field height width = Inr field1"
      and inv: "counted field0 (height * Width field0 + (width + 1)) field1"
      by (auto simp: add.assoc)
    from "1.IH" [OF True c "1.prems"(1) inv] "1.prems" True W
    obtain field' where "adjacentRow field1 height (width + 1) = Inr field'"
      and "counted field0 ((height + 1) * Width field0) field'"
      by auto
    with True c show ?thesis by (subst adjacentRow.simps) simp
  qed
qed

lemma adjacentRows_counted:
  assumes "wellFormed field0" and "counted field0 (height * Width field0) field"
    and "0 \<le> height" and "height \<le> Height field0"
  shows "\<exists>field'. adjacentRows field height = Inr field' \<and>
           counted field0 (Height field0 * Width field0) field'"
  using assms
proof (induction field height rule: adjacentRows.induct)
  case (1 field height)
  from "1.prems"(2) have H: "Height field = Height field0"
    by (simp add: counted_def sameShape_def)
  from "1.prems"(1) have W0: "0 \<le> Width field0" by (simp add: wellFormed_def)
  show ?case
  proof (cases "height < Height field")
    case False
    with "1.prems" H have "height = Height field0" by simp
    with "1.prems"(2) False show ?thesis
      by (subst adjacentRows.simps) simp
  next
    case True
    from "1.prems"(2) have "counted field0 (height * Width field0 + 0) field" by simp
    from adjacentRow_counted [OF "1.prems"(1) this "1.prems"(3) _ _ W0] True H
    obtain field1 where r: "adjacentRow field height 0 = Inr field1"
      and inv: "counted field0 ((height + 1) * Width field0) field1"
      by auto
    from "1.IH" [OF True r "1.prems"(1) inv] "1.prems" True H
    obtain field' where "adjacentRows field1 (height + 1) = Inr field'"
      and "counted field0 (Height field0 * Width field0) field'"
      by auto
    with True r show ?thesis by (subst adjacentRows.simps) simp
  qed
qed

text \<open>
  Claim C9. On a well-formed field whose counters are all zero (the field after
  \<open>NewPlayField\<close> and \<open>addBlackHoles\<close>), \<open>addAdjacentBlackHoles\<close> returns normally, and
  at every in-bounds position the cell afterwards is the cell before with its counter
  set to the number of in-bounds neighbours, of the up to eight orthogonal and diagonal
  ones, that are black holes; read as a signed 8-bit number the counter is that number,
  which is at most 8.
\<close>

theorem addAdjacentBlackHoles_exact:
  assumes "wellFormed field"
    and "\<forall>c \<in> set (Cells field). AdjucentBlackHoleQuantity c = 0"
  shows "\<exists>field'. addAdjacentBlackHoles field = Inr field' \<and> sameShape field field' \<and>
           (\<forall>width height. inBounds field width height \<longrightarrow>
              cellOf field' width height =
                (cellOf field width height)
                  \<lparr>AdjucentBlackHoleQuantity := of_nat (adjacentHoles field width height)\<rparr> \<and>
              sint (AdjucentBlackHoleQuantity (cellOf field' width height)) =
                int (adjacentHoles field' width height) \<and>
              adjacentHoles field' width height \<le> 8)"
proof -
  have "counted field (0 * Width field) field"
    using assms(1) by (auto simp: counted_def sameShape_def inBounds_def wellFormed_def
        dest: mult_nonneg_nonneg [of _ "Width field"])
  from adjacentRows_counted [OF assms(1) this] assms(1)
  obtain field' where run: "addAdjacentBlackHoles field = Inr field'"
    and inv: "counted field (Height field * Width field) field'"
    by (auto simp: addAdjacentBlackHoles_def wellFormed_def)
  have cell: "cellOf field' width height =
      (cellOf field width height)
        \<lparr>AdjucentBlackHoleQuantity := of_nat (adjacentHoles field width height)\<rparr>"
    if ib: "inBounds field width height" for width height
  proof -
    from index_in_range [OF assms(1) ib] assms(1)
    have lt: "height * Width field + width < Height field * Width field"
      and "nat (height * Width field + width) < length (Cells field)"
      by (simp_all add: wellFormed_def mult.commute)
    with assms(2) have "AdjucentBlackHoleQuantity (cellOf field width height) = 0"
      by (simp add: cellOf_def)
    with inv ib lt show ?thesis by (simp add: counted_def withCount_def)
  qed
  have "sint (AdjucentBlackHoleQuantity (cellOf field' width height)) =
          int (adjacentHoles field' width height)"
    if ib: "inBounds field width height" for width height
    using cell [OF ib] counted_adjacentHoles [OF inv, of width height]
      sint_small [OF adjacentHoles_le [of field width height]]
    by simp
  with run inv cell adjacentHoles_le show ?thesis
    by (auto simp: counted_def)
qed

text \<open>The field \<open>wideField\<close> before its counters are computed.\<close>

definition uncountedField :: playField where
  "uncountedField =
     \<lparr>Width = 2, Height = 1, BlackHoleQuantity = 1,
      Cells = [zeroCell\<lparr>IsBlackHole := True\<rparr>, zeroCell]\<rparr>"

theorem addAdjacentBlackHoles_exact_witness:
  "wellFormed uncountedField \<and>
   map AdjucentBlackHoleQuantity (Cells uncountedField) = [0, 0] \<and>
   inBounds uncountedField 1 0 \<and>
   (\<exists>field'. addAdjacentBlackHoles uncountedField = Inr field' \<and>
      cellOf field' 1 0 = zeroCell\<lparr>AdjucentBlackHoleQuantity := 1\<rparr> \<and>
      cellOf field' 0 0 = zeroCell\<lparr>IsBlackHole := True\<rparr>)"
proof -
  have wf: "wellFormed uncountedField" by (simp add: wellFormed_def uncountedField_def)
  have fresh: "\<forall>c \<in> set (Cells uncountedField). AdjucentBlackHoleQuantity c = 0"
    by (simp add: uncountedField_def zeroCell_def)
  have ib: "inBounds uncountedField 1 0" "inBounds uncountedField 0 0"
    by (simp_all add: inBounds_def uncountedField_def)
  have n: "adjacentHoles uncountedField 1 0 = 1" "adjacentHoles uncountedField 0 0 = 0"
    by (simp_all add: adjacentHoles_def neighbours8_def inBounds_def cellOf_def
        uncountedField_def zeroCell_def)
  have c: "cellOf uncountedField 1 0 = zeroCell"
    "cellOf uncountedField 0 0 = zeroCell\<lparr>IsBlackHole := True\<rparr>"
    by (simp_all add: cellOf_def uncountedField_def)
  have z: "map AdjucentBlackHoleQuantity (Cells uncountedField) = [0, 0]"
    by (simp add: uncountedField_def zeroCell_def)
  from addAdjacentBlackHoles_exact [OF wf fresh] wf z ib n c show ?thesis
    by (auto simp: zeroCell_def)
qed


section \<open>updateFieldVisibility\<close>

text \<open>
  The state the recursion threads through its calls: the field, and the map
  \<open>previousCells\<close>, used as a set of positions, which all calls of one top-level
  invocation share.
\<close>

type_synonym visit = "playField \<times> playCellPos set"

text \<open>
  A result is \<open>None\<close> when the recursion is cut off (see below), a panic, or the state
  after the call. \<open>andThen\<close> runs the next statement on the state of the previous one.
\<close>

definition andThen ::
  "(panic + 'a) option \<Rightarrow> ('a \<Rightarrow> (panic + 'b) option) \<Rightarrow> (panic + 'b) option" where
  "andThen r f = (case r of None \<Rightarrow> None | Some (Inl e) \<Rightarrow> Some (Inl e) | Some (Inr x) \<Rightarrow> f x)"

text \<open>
  One of the four blocks of lines 274 to 309, for the neighbour at \<open>(width, height)\<close>
  with index \<open>neighbourPos\<close>: when the guard holds and the neighbour is not a black hole
  it is made visible, and when its position is not in \<open>previousCells\<close> the position is
  added and the function calls itself there (\<open>recurse\<close>).
\<close>

definition visitNeighbour ::
  "(int \<Rightarrow> int \<Rightarrow> visit \<Rightarrow> (panic + visit) option) \<Rightarrow>
     bool \<Rightarrow> int \<Rightarrow> int \<Rightarrow> int \<Rightarrow> visit \<Rightarrow> (panic + visit) option" where
  "visitNeighbour recurse guard neighbourPos width height state =
     (case state of (field, previousCells) \<Rightarrow>
        if guard then
          (case cellAt field neighbourPos of
             Inl e \<Rightarrow> Some (Inl e)
           | Inr neighbour \<Rightarrow>
               if \<not> IsBlackHole neighbour then
                 (let field' = setCell field neighbourPos (neighbour\<lparr>IsVisible := True\<rparr>);
                      currentPlayCellPos = (width, height)
                  in if currentPlayCellPos \<notin> previousCells
                     then recurse width height (field', insert currentPlayCellPos previousCells)
                     else Some (Inr (field', previousCells)))
               else Some (Inr (field, previousCells)))
        else Some (Inr (field, previousCells)))"

text \<open>
  \<open>updateFieldVisibility\<close>. The first argument bounds the depth of the recursion, which
  HOL needs to accept the definition: with depth 0 left the result is \<open>None\<close>. That the
  recursion of the program ends is the theorem that a depth above the number of cells
  always gives a result. The field's \<open>Width\<close> and \<open>Height\<close> in the guards are read from
  the field at entry; the function never changes them.
\<close>

primrec updateFieldVisibility :: "nat \<Rightarrow> int \<Rightarrow> int \<Rightarrow> visit \<Rightarrow> (panic + visit) option" where
  "updateFieldVisibility 0 width height state = None"
| "updateFieldVisibility (Suc fuel) width height state =
     (case state of (field, previousCells) \<Rightarrow>
        let rowBias = height * Width field;
            currentPos = rowBias + width
        in case cellAt field currentPos of
             Inl e \<Rightarrow> Some (Inl e)
           | Inr currentCell \<Rightarrow>
               if AdjucentBlackHoleQuantity currentCell = 0 then
                 andThen (visitNeighbour (updateFieldVisibility fuel) (width > 0)
                            (currentPos - 1) (width - 1) height state) (\<lambda>state.
                 andThen (visitNeighbour (updateFieldVisibility fuel) (width < Width field - 1)
                            (currentPos + 1) (width + 1) height state) (\<lambda>state.
                 andThen (visitNeighbour (updateFieldVisibility fuel) (height > 0)
                            (currentPos - Width field) width (height - 1) state) (\<lambda>state.
                 visitNeighbour (updateFieldVisibility fuel) (height < Height field - 1)
                            (currentPos + Width field) width (height + 1) state)))
               else Some (Inr state))"


subsection \<open>Exploring a graph with a shared visited set\<close>

text \<open>
  The successors of a set of nodes, and what a finished call at node \<open>p\<close> has done to
  the visited set, which was \<open>prev\<close> at entry: it only grew, inside \<open>B\<close>; every node it
  gained is reachable from \<open>p\<close> and has all its successors in it; and the successors
  \<open>S\<close> of \<open>p\<close> handled so far are in it.
\<close>

definition succs :: "('a \<Rightarrow> 'a \<Rightarrow> bool) \<Rightarrow> 'a set \<Rightarrow> 'a set" where
  "succs E D = {q. \<exists>d \<in> D. E d q}"

definition explored ::
  "('a \<Rightarrow> 'a \<Rightarrow> bool) \<Rightarrow> 'a set \<Rightarrow> 'a set \<Rightarrow> 'a \<Rightarrow> 'a set \<Rightarrow> 'a set \<Rightarrow> bool" where
  "explored E B prev p S prev' \<longleftrightarrow>
     prev \<subseteq> prev' \<and> prev' \<subseteq> B \<and>
     prev' - prev \<subseteq> {q. E\<^sup>+\<^sup>+ p q} \<and>
     succs E (prev' - prev) \<subseteq> prev' \<and>
     S \<subseteq> prev'"

lemma explored_start: "prev \<subseteq> B \<Longrightarrow> explored E B prev p {} prev"
  by (simp add: explored_def succs_def)

lemma explored_skip: "explored E B prev p S prev' \<Longrightarrow> S' \<subseteq> S \<Longrightarrow> explored E B prev p S' prev'"
  by (auto simp: explored_def)

lemma explored_known:
  "explored E B prev0 p S prev \<Longrightarrow> q \<in> prev \<Longrightarrow> explored E B prev0 p (insert q S) prev"
  by (simp add: explored_def)

lemma explored_new:
  assumes outer: "explored E B prev0 p S prev" and edge: "E p q" and new: "q \<notin> prev"
    and inner: "explored E B (insert q prev) q (Collect (E q)) prev2"
  shows "explored E B prev0 p (insert q S) prev2"
    and "prev2 - prev0 = (prev - prev0) \<union> insert q (prev2 - insert q prev)"
proof -
  from outer inner have chain: "prev0 \<subseteq> prev" "insert q prev \<subseteq> prev2" "prev2 \<subseteq> B"
    by (auto simp: explored_def)
  with new show split: "prev2 - prev0 = (prev - prev0) \<union> insert q (prev2 - insert q prev)"
    by auto
  have reach: "prev2 - prev0 \<subseteq> {d. E\<^sup>+\<^sup>+ p d}"
  proof
    fix d assume "d \<in> prev2 - prev0"
    with split consider "d \<in> prev - prev0" | "d = q" | "d \<in> prev2 - insert q prev" by blast
    then show "d \<in> {d. E\<^sup>+\<^sup>+ p d}"
    proof cases
      case 1 with outer show ?thesis by (auto simp: explored_def)
    next
      case 2 with edge show ?thesis by auto
    next
      case 3
      with inner have "E\<^sup>+\<^sup>+ q d" by (auto simp: explored_def)
      with edge show ?thesis by (auto intro: tranclp_into_tranclp2)
    qed
  qed
  have closed: "succs E (prev2 - prev0) \<subseteq> prev2"
  proof
    fix x assume "x \<in> succs E (prev2 - prev0)"
    then obtain d where d: "d \<in> prev2 - prev0" and x: "E d x" by (auto simp: succs_def)
    from d split consider "d \<in> prev - prev0" | "d = q" | "d \<in> prev2 - insert q prev" by blast
    then show "x \<in> prev2"
    proof cases
      case 1
      with outer x have "x \<in> prev" by (auto simp: explored_def succs_def)
      with chain show ?thesis by auto
    next
      case 2 with inner x show ?thesis by (auto simp: explored_def)
    next
      case 3 with inner x show ?thesis by (auto simp: explored_def succs_def)
    qed
  qed
  from outer chain have "insert q S \<subseteq> prev2" by (auto simp: explored_def)
  with chain reach closed show "explored E B prev0 p (insert q S) prev2"
    by (auto simp: explored_def)
qed

lemma succs_Un: "succs E (A \<union> B) = succs E A \<union> succs E B"
  by (auto simp: succs_def)

lemma succs_insert: "succs E (insert q A) = Collect (E q) \<union> succs E A"
  by (auto simp: succs_def)

lemma explored_top:
  assumes "explored E B {} p (Collect (E p)) prev'"
  shows "prev' = {q. E\<^sup>+\<^sup>+ p q}" and "Collect (E p) \<union> succs E prev' = {q. E\<^sup>+\<^sup>+ p q}"
proof -
  from assms have sound: "prev' \<subseteq> {q. E\<^sup>+\<^sup>+ p q}" and closed: "succs E prev' \<subseteq> prev'"
    and first: "Collect (E p) \<subseteq> prev'"
    by (auto simp: explored_def)
  have "q \<in> prev'" if "E\<^sup>+\<^sup>+ p q" for q
    using that
  proof (induction rule: tranclp_induct)
    case (base y) with first show ?case by auto
  next
    case (step y z) with closed show ?case by (auto simp: succs_def)
  qed
  with sound show eq: "prev' = {q. E\<^sup>+\<^sup>+ p q}" by auto
  show "Collect (E p) \<union> succs E prev' = {q. E\<^sup>+\<^sup>+ p q}"
    unfolding eq by (auto simp: succs_def elim: tranclp.cases intro: tranclp.intros)
qed


subsection \<open>The graph of the traversal\<close>

text \<open>
  The traversal steps from \<open>p\<close> to \<open>q\<close> when \<open>p\<close> has no adjacent black hole and \<open>q\<close>
  is an orthogonal neighbour in the field that is not a black hole. \<open>revealed\<close> relates
  a field to the same field with the cells of a set made visible.
\<close>

definition flows :: "playField \<Rightarrow> playCellPos \<Rightarrow> playCellPos \<Rightarrow> bool" where
  "flows field p q \<longleftrightarrow>
     inBounds field (fst p) (snd p) \<and> inBounds field (fst q) (snd q) \<and>
     \<bar>fst q - fst p\<bar> + \<bar>snd q - snd p\<bar> = 1 \<and>
     AdjucentBlackHoleQuantity (cellOf field (fst p) (snd p)) = 0 \<and>
     \<not> IsBlackHole (cellOf field (fst q) (snd q))"

definition positions :: "playField \<Rightarrow> playCellPos set" where
  "positions field = {(x, y). inBounds field x y}"

definition revealed :: "playField \<Rightarrow> playCellPos set \<Rightarrow> playField \<Rightarrow> bool" where
  "revealed field V field' \<longleftrightarrow>
     sameShape field field' \<and>
     (\<forall>x y. inBounds field x y \<longrightarrow>
        cellOf field' x y =
          (if (x, y) \<in> V then (cellOf field x y)\<lparr>IsVisible := True\<rparr> else cellOf field x y))"

lemma positions_finite: "finite (positions field)"
proof -
  have "positions field = {0..<Width field} \<times> {0..<Height field}"
    by (auto simp: positions_def inBounds_def)
  then show ?thesis by simp
qed

lemma positions_card: "wellFormed field \<Longrightarrow> card (positions field) = length (Cells field)"
proof -
  assume wf: "wellFormed field"
  have "positions field = {0..<Width field} \<times> {0..<Height field}"
    by (auto simp: positions_def inBounds_def)
  then have "card (positions field) = nat (Width field) * nat (Height field)"
    by (simp add: card_cartesian_product)
  with wf show ?thesis by (simp add: wellFormed_def nat_mult_distrib)
qed

lemma revealed_refl: "revealed field {} field"
  by (simp add: revealed_def sameShape_def)

lemma revealed_same:
  assumes "revealed field V field'"
  shows "inBounds field' = inBounds field" and "positions field' = positions field"
    and "flows field' = flows field" and "wellFormed field \<Longrightarrow> wellFormed field'"
proof -
  from assms have shape: "sameShape field field'" by (simp add: revealed_def)
  then show ib: "inBounds field' = inBounds field"
    by (simp add: fun_eq_iff inBounds_def sameShape_def)
  then show "positions field' = positions field" by (simp add: positions_def)
  have cell: "AdjucentBlackHoleQuantity (cellOf field' x y) =
        AdjucentBlackHoleQuantity (cellOf field x y) \<and>
      IsBlackHole (cellOf field' x y) = IsBlackHole (cellOf field x y)"
    if "inBounds field x y" for x y
    using assms that by (simp add: revealed_def)
  show "flows field' = flows field"
    by (auto simp: fun_eq_iff flows_def ib cell)
  show "wellFormed field'" if "wellFormed field"
    using that shape by (simp add: wellFormed_def sameShape_def)
qed

lemma revealed_trans:
  assumes "revealed field V field'" and "revealed field' V' field''"
  shows "revealed field (V \<union> V') field''"
proof -
  note ib = revealed_same(1) [OF assms(1)]
  from assms have "sameShape field field''" by (simp add: revealed_def sameShape_def)
  moreover have "cellOf field'' x y =
      (if (x, y) \<in> V \<union> V' then (cellOf field x y)\<lparr>IsVisible := True\<rparr> else cellOf field x y)"
    if "inBounds field x y" for x y
    using assms that by (simp add: revealed_def ib)
  ultimately show ?thesis by (simp add: revealed_def)
qed

lemma revealed_setCell:
  assumes wf: "wellFormed field" and ib: "inBounds field x y"
  shows "revealed field {(x, y)}
           (setCell field (y * Width field + x) ((cellOf field x y)\<lparr>IsVisible := True\<rparr>))"
proof -
  let ?field' = "setCell field (y * Width field + x) ((cellOf field x y)\<lparr>IsVisible := True\<rparr>)"
  have "cellOf ?field' x' y' =
      (if (x', y') \<in> {(x, y)} then (cellOf field x' y')\<lparr>IsVisible := True\<rparr>
       else cellOf field x' y')" if ib': "inBounds field x' y'" for x' y'
  proof (cases "x' = x \<and> y' = y")
    case True
    with index_in_range [OF wf ib] show ?thesis by (simp add: cellOf_def setCell_def)
  next
    case False
    with index_inj [OF wf ib' ib] have "y' * Width field + x' \<noteq> y * Width field + x"
      by blast
    moreover note index_in_range [OF wf ib] index_in_range [OF wf ib']
    ultimately have "nat (y' * Width field + x') \<noteq> nat (y * Width field + x)"
      by linarith
    with False show ?thesis by (auto simp: cellOf_def setCell_def)
  qed
  then show ?thesis by (simp add: revealed_def sameShape_def)
qed

text \<open>
  The state of a call at \<open>p\<close> that started from field \<open>field0\<close> and visited set
  \<open>prev0\<close>, after the successors \<open>S\<close> of \<open>p\<close> have been handled: exactly the cells of
  \<open>S\<close> and the successors of the newly visited positions have been made visible.
\<close>

definition reached ::
  "playField \<Rightarrow> playCellPos set \<Rightarrow> playCellPos \<Rightarrow> playCellPos set \<Rightarrow> visit \<Rightarrow> bool" where
  "reached field0 prev0 p S state \<longleftrightarrow>
     (case state of (field', prev') \<Rightarrow>
        explored (flows field0) (positions field0) prev0 p S prev' \<and>
        revealed field0 (S \<union> succs (flows field0) (prev' - prev0)) field')"

lemma visitNeighbour_step:
  assumes wf: "wellFormed field0" and p: "inBounds field0 w h"
    and zero: "AdjucentBlackHoleQuantity (cellOf field0 w h) = 0"
    and nb: "\<bar>x - w\<bar> + \<bar>y - h\<bar> = 1"
    and guard: "guard \<longleftrightarrow> inBounds field0 x y"
    and pos: "neighbourPos = y * Width field0 + x"
    and before: "reached field0 prev0 (w, h) S (field, prev)"
    and fuel: "card (positions field0 - prev0) \<le> fuel"
    and rec: "\<And>field1 prev1. wellFormed field1 \<Longrightarrow> inBounds field1 x y \<Longrightarrow>
       prev1 \<subseteq> positions field1 \<Longrightarrow> card (positions field1 - prev1) < fuel \<Longrightarrow>
       \<exists>state'. recurse x y (field1, prev1) = Some (Inr state') \<and>
         reached field1 prev1 (x, y) (Collect (flows field1 (x, y))) state'"
  shows "\<exists>state'. visitNeighbour recurse guard neighbourPos x y (field, prev) = Some (Inr state') \<and>
           reached field0 prev0 (w, h) (S \<union> {q. q = (x, y) \<and> flows field0 (w, h) q}) state'"
proof -
  let ?E = "flows field0" and ?B = "positions field0"
  from before have ex: "explored ?E ?B prev0 (w, h) S prev"
    and rev: "revealed field0 (S \<union> succs ?E (prev - prev0)) field"
    by (simp_all add: reached_def)
  note same = revealed_same [OF rev]
  have wf': "wellFormed field" by (rule same(4) [OF wf])
  have W: "Width field = Width field0" using rev by (simp add: revealed_def sameShape_def)
  show ?thesis
  proof (cases "guard \<and> \<not> IsBlackHole (cellOf field0 x y)")
    case False
    then have noflow: "{q. q = (x, y) \<and> ?E (w, h) q} = {}"
      using guard by (auto simp: flows_def)
    have "visitNeighbour recurse guard neighbourPos x y (field, prev) = Some (Inr (field, prev))"
    proof (cases guard)
      case True
      with guard have ib: "inBounds field x y" by (simp add: same(1))
      from True False guard rev have "IsBlackHole (cellOf field x y)"
        by (simp add: revealed_def)
      with True cellAt_inBounds [OF wf' ib] show ?thesis
        by (simp add: visitNeighbour_def pos W cellOf_def)
    next
      case False
      then show ?thesis by (simp add: visitNeighbour_def)
    qed
    with before show ?thesis by (simp add: noflow)
  next
    case True
    with guard have ib0: "inBounds field0 x y" and nohole: "\<not> IsBlackHole (cellOf field0 x y)"
      by simp_all
    from ib0 have ib: "inBounds field x y" by (simp add: same(1))
    from nohole ib0 rev have nohole': "\<not> IsBlackHole (cellOf field x y)"
      by (simp add: revealed_def)
    have flow: "?E (w, h) (x, y)"
      using p ib0 nb zero nohole by (simp add: flows_def)
    then have S': "S \<union> {q. q = (x, y) \<and> ?E (w, h) q} = insert (x, y) S" by auto
    let ?field1 = "setCell field neighbourPos ((cellOf field x y)\<lparr>IsVisible := True\<rparr>)"
    have rev1: "revealed field {(x, y)} ?field1"
      using revealed_setCell [OF wf' ib] by (simp add: pos W)
    have rev01: "revealed field0 (insert (x, y) (S \<union> succs ?E (prev - prev0))) ?field1"
      using revealed_trans [OF rev rev1] by simp
    have cell: "cellAt field neighbourPos = Inr (cellOf field x y)"
      using cellAt_inBounds [OF wf' ib] by (simp add: pos W cellOf_def)
    show ?thesis
    proof (cases "(x, y) \<in> prev")
      case known: True
      have run: "visitNeighbour recurse guard neighbourPos x y (field, prev) =
          Some (Inr (?field1, prev))"
        using True cell nohole' known by (simp add: visitNeighbour_def)
      have "explored ?E ?B prev0 (w, h) (insert (x, y) S) prev"
        by (rule explored_known [OF ex known])
      with rev01 have "reached field0 prev0 (w, h) (insert (x, y) S) (?field1, prev)"
        by (simp add: reached_def)
      with run show ?thesis by (simp add: S')
    next
      case new: False
      have run: "visitNeighbour recurse guard neighbourPos x y (field, prev) =
          recurse x y (?field1, insert (x, y) prev)"
        using True cell nohole' new by (simp add: visitNeighbour_def)
      note same1 = revealed_same [OF rev01]
      have wf1: "wellFormed ?field1" by (rule same1(4) [OF wf])
      have ib1: "inBounds ?field1 x y" using ib0 by (simp add: same1(1))
      from ex have sub: "prev0 \<subseteq> prev" "prev \<subseteq> ?B" by (auto simp: explored_def)
      with ib0 have sub1: "insert (x, y) prev \<subseteq> positions ?field1"
        by (simp add: same1(2)) (simp add: positions_def)
      have "(x, y) \<in> ?B" using ib0 by (simp add: positions_def)
      with new have "?B - insert (x, y) prev \<subset> ?B - prev" by auto
      then have "card (?B - insert (x, y) prev) < card (?B - prev)"
        by (intro psubset_card_mono) (simp_all add: positions_finite)
      also have "\<dots> \<le> card (?B - prev0)"
        using sub by (intro card_mono) (auto simp: positions_finite)
      finally have "card (positions ?field1 - insert (x, y) prev) < fuel"
        using fuel by (simp add: same1(2))
      from rec [OF wf1 ib1 sub1 this] obtain field2 prev2 where
        r: "recurse x y (?field1, insert (x, y) prev) = Some (Inr (field2, prev2))"
        and inner: "explored ?E ?B (insert (x, y) prev) (x, y) (Collect (?E (x, y))) prev2"
        and rev2: "revealed ?field1
            (Collect (?E (x, y)) \<union> succs ?E (prev2 - insert (x, y) prev)) field2"
        by (auto simp: reached_def same1)
      note new = explored_new [OF ex flow new inner]
      have "revealed field0
          (insert (x, y) (S \<union> succs ?E (prev - prev0)) \<union>
           (Collect (?E (x, y)) \<union> succs ?E (prev2 - insert (x, y) prev))) field2"
        by (rule revealed_trans [OF rev01 rev2])
      also have "insert (x, y) (S \<union> succs ?E (prev - prev0)) \<union>
           (Collect (?E (x, y)) \<union> succs ?E (prev2 - insert (x, y) prev)) =
          insert (x, y) S \<union> succs ?E (prev2 - prev0)"
        unfolding new(2) succs_Un succs_insert by auto
      finally have "reached field0 prev0 (w, h) (insert (x, y) S) (field2, prev2)"
        using new(1) by (simp add: reached_def)
      with run r show ?thesis by (simp add: S')
    qed
  qed
qed


lemma andThen_Some [simp]: "andThen (Some (Inr x)) f = f x"
  by (simp add: andThen_def)

lemma flows_neighbours:
  "flows field (w, h) q \<Longrightarrow> q = (w - 1, h) \<or> q = (w + 1, h) \<or> q = (w, h - 1) \<or> q = (w, h + 1)"
  by (cases q) (auto simp: flows_def)

lemma updateFieldVisibility_reached:
  assumes "wellFormed field" and "inBounds field w h" and "prev \<subseteq> positions field"
    and "card (positions field - prev) < fuel"
  shows "\<exists>state'. updateFieldVisibility fuel w h (field, prev) = Some (Inr state') \<and>
           reached field prev (w, h) (Collect (flows field (w, h))) state'"
  using assms
proof (induction fuel arbitrary: field w h prev)
  case 0
  then show ?case by simp
next
  case (Suc fuel)
  note wf = Suc.prems(1) and p = Suc.prems(2)
  let ?E = "flows field" and ?W = "Width field"
  let ?pos = "h * ?W + w"
  from Suc.prems(4) have fuel: "card (positions field - prev) \<le> fuel" by simp
  have cell: "cellAt field ?pos = Inr (cellOf field w h)"
    using cellAt_inBounds [OF wf p] by (simp add: cellOf_def)
  have start: "reached field prev (w, h) {} (field, prev)"
    using Suc.prems(3) by (simp add: reached_def explored_start succs_def revealed_refl)
  show ?case
  proof (cases "AdjucentBlackHoleQuantity (cellOf field w h) = 0")
    case False
    then have e: "Collect (?E (w, h)) = {}" by (auto simp: flows_def)
    from start have "reached field prev (w, h) (Collect (?E (w, h))) (field, prev)"
      unfolding e .
    moreover have "updateFieldVisibility (Suc fuel) w h (field, prev) = Some (Inr (field, prev))"
      using cell False by simp
    ultimately show ?thesis by blast
  next
    case zero: True
    note step = visitNeighbour_step [where recurse = "updateFieldVisibility fuel",
        OF wf p zero _ _ _ _ fuel Suc.IH]
    from p have g: "(w > 0) = inBounds field (w - 1) h" "(w < ?W - 1) = inBounds field (w + 1) h"
      "(h > 0) = inBounds field w (h - 1)" "(h < Height field - 1) = inBounds field w (h + 1)"
      by (auto simp: inBounds_def)
    from step [OF _ g(1) _ start, of "?pos - 1"] obtain s1 where
      r1: "visitNeighbour (updateFieldVisibility fuel) (w > 0) (?pos - 1) (w - 1) h (field, prev) =
            Some (Inr s1)"
      and q1: "reached field prev (w, h) ({} \<union> {q. q = (w - 1, h) \<and> ?E (w, h) q}) s1"
      by (auto simp: algebra_simps)
    obtain f1 p1 where s1: "s1 = (f1, p1)" by (cases s1)
    from step [OF _ g(2) _ q1 [unfolded s1], of "?pos + 1"] obtain s2 where
      r2: "visitNeighbour (updateFieldVisibility fuel) (w < ?W - 1) (?pos + 1) (w + 1) h s1 =
            Some (Inr s2)"
      and q2: "reached field prev (w, h)
          ({} \<union> {q. q = (w - 1, h) \<and> ?E (w, h) q} \<union> {q. q = (w + 1, h) \<and> ?E (w, h) q}) s2"
      by (auto simp: algebra_simps s1)
    obtain f2 p2 where s2: "s2 = (f2, p2)" by (cases s2)
    from step [OF _ g(3) _ q2 [unfolded s2], of "?pos - ?W"] obtain s3 where
      r3: "visitNeighbour (updateFieldVisibility fuel) (h > 0) (?pos - ?W) w (h - 1) s2 =
            Some (Inr s3)"
      and q3: "reached field prev (w, h)
          ({} \<union> {q. q = (w - 1, h) \<and> ?E (w, h) q} \<union> {q. q = (w + 1, h) \<and> ?E (w, h) q} \<union>
           {q. q = (w, h - 1) \<and> ?E (w, h) q}) s3"
      by (auto simp: algebra_simps s2)
    obtain f3 p3 where s3: "s3 = (f3, p3)" by (cases s3)
    from step [OF _ g(4) _ q3 [unfolded s3], of "?pos + ?W"] obtain s4 where
      r4: "visitNeighbour (updateFieldVisibility fuel) (h < Height field - 1) (?pos + ?W) w (h + 1) s3 =
            Some (Inr s4)"
      and q4: "reached field prev (w, h)
          ({} \<union> {q. q = (w - 1, h) \<and> ?E (w, h) q} \<union> {q. q = (w + 1, h) \<and> ?E (w, h) q} \<union>
           {q. q = (w, h - 1) \<and> ?E (w, h) q} \<union> {q. q = (w, h + 1) \<and> ?E (w, h) q}) s4"
      by (auto simp: algebra_simps s3)
    have "{} \<union> {q. q = (w - 1, h) \<and> ?E (w, h) q} \<union> {q. q = (w + 1, h) \<and> ?E (w, h) q} \<union>
           {q. q = (w, h - 1) \<and> ?E (w, h) q} \<union> {q. q = (w, h + 1) \<and> ?E (w, h) q} =
          Collect (?E (w, h))"
      using flows_neighbours [of field w h] by blast
    with q4 have "reached field prev (w, h) (Collect (?E (w, h))) s4" by simp
    moreover have "updateFieldVisibility (Suc fuel) w h (field, prev) = Some (Inr s4)"
      using cell zero r1 r2 r3 r4 by (simp add: Let_def)
    ultimately show ?thesis by blast
  qed
qed


subsection \<open>The depth bound does not change a result\<close>

lemma visitNeighbour_mono:
  assumes "visitNeighbour recurse guard neighbourPos x y state = Some r"
    and "\<And>s r. recurse x y s = Some r \<Longrightarrow> recurse' x y s = Some r"
  shows "visitNeighbour recurse' guard neighbourPos x y state = Some r"
  using assms by (auto simp: visitNeighbour_def Let_def split: prod.splits sum.splits if_splits)

lemma andThen_mono:
  assumes "andThen a f = Some r"
    and "\<And>x. a = Some x \<Longrightarrow> a' = Some x"
    and "\<And>x r. f x = Some r \<Longrightarrow> f' x = Some r"
  shows "andThen a' f' = Some r"
  using assms by (auto simp: andThen_def split: option.splits sum.splits)

lemma updateFieldVisibility_Suc:
  "updateFieldVisibility fuel width height state = Some r \<Longrightarrow>
   updateFieldVisibility (Suc fuel) width height state = Some r"
proof (induction fuel arbitrary: width height state r)
  case 0
  then show ?case by simp
next
  case (Suc fuel)
  obtain field prev where state: "state = (field, prev)" by (cases state)
  note deeper = visitNeighbour_mono [where recurse = "updateFieldVisibility fuel"
      and recurse' = "updateFieldVisibility (Suc fuel)", OF _ Suc.IH]
  show ?case
  proof (cases "cellAt field (height * Width field + width)")
    case (Inl e)
    with Suc.prems show ?thesis by (simp add: state)
  next
    case (Inr currentCell)
    show ?thesis
    proof (cases "AdjucentBlackHoleQuantity currentCell = 0")
      case False
      with Suc.prems Inr show ?thesis by (simp add: state)
    next
      case True
      have unfold: "updateFieldVisibility (Suc n) width height (field, prev) =
          andThen (visitNeighbour (updateFieldVisibility n) (width > 0)
                     (height * Width field + width - 1) (width - 1) height (field, prev)) (\<lambda>state.
          andThen (visitNeighbour (updateFieldVisibility n) (width < Width field - 1)
                     (height * Width field + width + 1) (width + 1) height state) (\<lambda>state.
          andThen (visitNeighbour (updateFieldVisibility n) (height > 0)
                     (height * Width field + width - Width field) width (height - 1) state) (\<lambda>state.
          visitNeighbour (updateFieldVisibility n) (height < Height field - 1)
                     (height * Width field + width + Width field) width (height + 1) state)))"
        for n
        using Inr True by (simp add: Let_def)
      from Suc.prems show ?thesis
        unfolding state unfold
        by (elim andThen_mono deeper)
    qed
  qed
qed

lemma updateFieldVisibility_deeper:
  assumes "fuel \<le> fuel'" and r: "updateFieldVisibility fuel width height state = Some r"
  shows "updateFieldVisibility fuel' width height state = Some r"
  using assms(1)
proof (induction rule: dec_induct)
  case base
  show ?case by (rule r)
next
  case (step n)
  then show ?case by (intro updateFieldVisibility_Suc)
qed

text \<open>
  Claim C5. On every well-formed field and at every in-bounds position the traversal,
  started with an empty \<open>previousCells\<close>, ends and returns normally: there is one
  result that every recursion depth above the number of cells gives, because every
  nested call has added a new in-bounds position to the shared set.
\<close>

theorem updateFieldVisibility_terminates:
  assumes "wellFormed field" and "inBounds field width height"
  shows "\<exists>field' previousCells. \<forall>fuel. length (Cells field) < fuel \<longrightarrow>
           updateFieldVisibility fuel width height (field, {}) =
             Some (Inr (field', previousCells))"
proof -
  have "card (positions field - {}) < Suc (length (Cells field))"
    using assms(1) by (simp add: positions_card)
  from updateFieldVisibility_reached [OF assms(1,2) empty_subsetI this]
  obtain state' where "updateFieldVisibility (Suc (length (Cells field)))
      width height (field, {}) = Some (Inr state')"
    by blast
  moreover obtain field' previousCells where "state' = (field', previousCells)"
    by (cases state')
  ultimately have run: "updateFieldVisibility (Suc (length (Cells field)))
      width height (field, {}) = Some (Inr (field', previousCells))"
    by (simp only:)
  have "updateFieldVisibility fuel width height (field, {}) =
      Some (Inr (field', previousCells))" if "length (Cells field) < fuel" for fuel
  proof -
    from that have "Suc (length (Cells field)) \<le> fuel" by simp
    then show ?thesis using run by (rule updateFieldVisibility_deeper)
  qed
  then show ?thesis by blast
qed

theorem updateFieldVisibility_terminates_witness:
  "wellFormed defaultField \<and> inBounds defaultField 3 4 \<and> length (Cells defaultField) < 65 \<and>
   (\<exists>field' previousCells.
      updateFieldVisibility 65 3 4 (defaultField, {}) = Some (Inr (field', previousCells)))"
proof -
  have wf: "wellFormed defaultField" by (simp add: wellFormed_def defaultField_def)
  have ib: "inBounds defaultField 3 4" by (simp add: inBounds_def defaultField_def)
  have len: "length (Cells defaultField) < 65" by (simp add: defaultField_def)
  from updateFieldVisibility_terminates [OF wf ib] wf ib len show ?thesis by blast
qed

subsection \<open>The region and its border\<close>

text \<open>
  The specification's words. Two positions are orthogonal neighbours when they differ by
  one in exactly one coordinate. The region of a start cell is the start together with
  the cells without adjacent black holes, not black holes themselves, that are reached
  from it by orthogonal steps through the region. Its border is every cell of the field
  that is an orthogonal neighbour of a region cell and not a black hole; region cells
  entered from another region cell are in it too.
\<close>

definition orthogonal :: "playCellPos \<Rightarrow> playCellPos \<Rightarrow> bool" where
  "orthogonal p q \<longleftrightarrow> \<bar>fst q - fst p\<bar> + \<bar>snd q - snd p\<bar> = 1"

inductive_set region :: "playField \<Rightarrow> playCellPos \<Rightarrow> playCellPos set"
  for field :: playField and start :: playCellPos where
  start: "start \<in> region field start"
| step: "p \<in> region field start \<Longrightarrow> orthogonal p q \<Longrightarrow> inBounds field (fst q) (snd q) \<Longrightarrow>
         AdjucentBlackHoleQuantity (cellOf field (fst q) (snd q)) = 0 \<Longrightarrow>
         \<not> IsBlackHole (cellOf field (fst q) (snd q)) \<Longrightarrow> q \<in> region field start"

definition border :: "playField \<Rightarrow> playCellPos \<Rightarrow> playCellPos set" where
  "border field start =
     {q. \<exists>p \<in> region field start. orthogonal p q \<and> inBounds field (fst q) (snd q) \<and>
           \<not> IsBlackHole (cellOf field (fst q) (snd q))}"

lemma region_flows:
  assumes "inBounds field (fst start) (snd start)"
    and "AdjucentBlackHoleQuantity (cellOf field (fst start) (snd start)) = 0"
    and "p \<in> region field start"
  shows "(p = start \<or> (flows field)\<^sup>+\<^sup>+ start p) \<and> inBounds field (fst p) (snd p) \<and>
         AdjucentBlackHoleQuantity (cellOf field (fst p) (snd p)) = 0"
  using assms(3)
proof (induction rule: region.induct)
  case start
  with assms show ?case by simp
next
  case (step p q)
  then have "flows field p q" by (simp add: flows_def orthogonal_def)
  with step show ?case by (auto intro: tranclp.intros)
qed

lemma border_flows:
  assumes "inBounds field (fst start) (snd start)"
    and "AdjucentBlackHoleQuantity (cellOf field (fst start) (snd start)) = 0"
  shows "border field start = {q. (flows field)\<^sup>+\<^sup>+ start q}"
proof (intro set_eqI iffI)
  fix q assume "q \<in> border field start"
  then obtain p where p: "p \<in> region field start" and "orthogonal p q"
    "inBounds field (fst q) (snd q)" "\<not> IsBlackHole (cellOf field (fst q) (snd q))"
    by (auto simp: border_def)
  with region_flows [OF assms p] have "flows field p q"
    by (simp add: flows_def orthogonal_def)
  with region_flows [OF assms p] show "q \<in> {q. (flows field)\<^sup>+\<^sup>+ start q}"
    by (auto intro: tranclp.intros)
next
  fix q assume "q \<in> {q. (flows field)\<^sup>+\<^sup>+ start q}"
  then have "(flows field)\<^sup>+\<^sup>+ start q" by simp
  then show "q \<in> border field start"
  proof (induction rule: tranclp_induct)
    case (base y)
    then show ?case
      by (auto simp: border_def flows_def orthogonal_def intro!: bexI [of _ start] region.start)
  next
    case (step y z)
    from step.IH obtain p where "p \<in> region field start" "orthogonal p y"
      "inBounds field (fst y) (snd y)" "\<not> IsBlackHole (cellOf field (fst y) (snd y))"
      by (auto simp: border_def)
    moreover from step.hyps(2) have "AdjucentBlackHoleQuantity (cellOf field (fst y) (snd y)) = 0"
      by (simp add: flows_def)
    ultimately have "y \<in> region field start" by (auto intro: region.step)
    with step.hyps(2) show ?case
      by (auto simp: border_def flows_def orthogonal_def)
  qed
qed

lemma region_border:
  "region field start \<union> border field start = insert start (border field start)"
proof -
  have "p = start \<or> p \<in> border field start" if "p \<in> region field start" for p
    using that by (induction rule: region.induct) (auto simp: border_def)
  then show ?thesis by (auto intro: region.start)
qed

text \<open>
  Claim C4, as amended. On a well-formed field, at an in-bounds start cell without
  adjacent black holes, the traversal started with an empty \<open>previousCells\<close> returns
  normally, and the field afterwards is the field before with exactly the cells of the
  border made visible: every cell of the region and of its non-mine orthogonal border,
  except that the start cell itself is set only when it lies in the border. No black
  hole is in the border, and \<open>IsMarked\<close> plays no part. When the start cell is visible
  at entry, as it is after \<open>updateFieldCell\<close> in main, the cells visible afterwards are
  those visible before and those of region and border.
\<close>

theorem updateFieldVisibility_reveals:
  assumes "wellFormed field" and "inBounds field width height"
    and "AdjucentBlackHoleQuantity (cellOf field width height) = 0"
  shows "\<exists>field' previousCells.
           (\<forall>fuel. length (Cells field) < fuel \<longrightarrow>
              updateFieldVisibility fuel width height (field, {}) =
                Some (Inr (field', previousCells))) \<and>
           sameShape field field' \<and>
           (\<forall>x y. inBounds field x y \<longrightarrow>
              cellOf field' x y =
                (if (x, y) \<in> border field (width, height)
                 then (cellOf field x y)\<lparr>IsVisible := True\<rparr> else cellOf field x y)) \<and>
           (\<forall>x y. (x, y) \<in> border field (width, height) \<longrightarrow> \<not> IsBlackHole (cellOf field x y)) \<and>
           region field (width, height) \<union> border field (width, height) =
             insert (width, height) (border field (width, height)) \<and>
           (IsVisible (cellOf field width height) \<longrightarrow>
              (\<forall>x y. inBounds field x y \<longrightarrow>
                 IsVisible (cellOf field' x y) =
                   (IsVisible (cellOf field x y) \<or>
                    (x, y) \<in> region field (width, height) \<union> border field (width, height))))"
proof -
  let ?E = "flows field"
  have "card (positions field - {}) < Suc (length (Cells field))"
    using assms(1) by (simp add: positions_card)
  from updateFieldVisibility_reached [OF assms(1,2) empty_subsetI this]
  obtain state' where
    run: "updateFieldVisibility (Suc (length (Cells field))) width height (field, {}) =
            Some (Inr state')"
    and r: "reached field {} (width, height) (Collect (?E (width, height))) state'"
    by blast
  obtain field' prev' where state': "state' = (field', prev')" by (cases state')
  from r have ex: "explored ?E (positions field) {} (width, height)
      (Collect (?E (width, height))) prev'"
    and rev: "revealed field (Collect (?E (width, height)) \<union> succs ?E (prev' - {})) field'"
    by (simp_all add: reached_def state')
  have every: "updateFieldVisibility fuel width height (field, {}) = Some (Inr (field', prev'))"
    if "length (Cells field) < fuel" for fuel
  proof -
    from that have "Suc (length (Cells field)) \<le> fuel" by simp
    then show ?thesis using run unfolding state' by (rule updateFieldVisibility_deeper)
  qed
  have b: "border field (width, height) = {q. ?E\<^sup>+\<^sup>+ (width, height) q}"
    using border_flows [of field "(width, height)"] assms(2,3) by simp
  from rev have "revealed field (border field (width, height)) field'"
    unfolding b using explored_top(2) [OF ex] by simp
  then have shape: "sameShape field field'"
    and cells: "\<forall>x y. inBounds field x y \<longrightarrow>
              cellOf field' x y =
                (if (x, y) \<in> border field (width, height)
                 then (cellOf field x y)\<lparr>IsVisible := True\<rparr> else cellOf field x y)"
    by (simp_all add: revealed_def)
  have holes: "\<forall>x y. (x, y) \<in> border field (width, height) \<longrightarrow>
      \<not> IsBlackHole (cellOf field x y)"
    by (simp add: border_def)
  note rb = region_border [of field "(width, height)"]
  have "IsVisible (cellOf field' x y) =
      (IsVisible (cellOf field x y) \<or>
       (x, y) \<in> region field (width, height) \<union> border field (width, height))"
    if "IsVisible (cellOf field width height)" and "inBounds field x y" for x y
    using that cells unfolding rb by auto
  with every shape cells holes rb show ?thesis by blast
qed

text \<open>
  A field of three cells in a row: a free cell, a cell next to the black hole, the black
  hole. Nothing is visible.
\<close>

definition lineField :: playField where
  "lineField =
     \<lparr>Width = 3, Height = 1, BlackHoleQuantity = 1,
      Cells = [zeroCell, zeroCell\<lparr>AdjucentBlackHoleQuantity := 1\<rparr>,
               zeroCell\<lparr>IsBlackHole := True\<rparr>]\<rparr>"

theorem updateFieldVisibility_reveals_witness:
  "wellFormed lineField \<and> inBounds lineField 0 0 \<and>
   AdjucentBlackHoleQuantity (cellOf lineField 0 0) = 0 \<and> length (Cells lineField) < 4 \<and>
   (\<exists>field' previousCells.
      updateFieldVisibility 4 0 0 (lineField, {}) = Some (Inr (field', previousCells)) \<and>
      cellOf field' 1 0 = zeroCell\<lparr>IsVisible := True, AdjucentBlackHoleQuantity := 1\<rparr> \<and>
      cellOf field' 2 0 = zeroCell\<lparr>IsBlackHole := True\<rparr>)"
proof -
  have wf: "wellFormed lineField" by (simp add: wellFormed_def lineField_def)
  have ib: "inBounds lineField 0 0" "inBounds lineField 1 0" "inBounds lineField 2 0"
    by (simp_all add: inBounds_def lineField_def)
  have zero: "AdjucentBlackHoleQuantity (cellOf lineField 0 0) = 0"
    by (simp add: cellOf_def lineField_def zeroCell_def)
  have len: "length (Cells lineField) < 4" by (simp add: lineField_def)
  have c: "cellOf lineField 1 0 = zeroCell\<lparr>AdjucentBlackHoleQuantity := 1\<rparr>"
    "cellOf lineField 2 0 = zeroCell\<lparr>IsBlackHole := True\<rparr>"
    by (simp_all add: cellOf_def lineField_def)
  have "orthogonal (0, 0) (1, 0)" by (simp add: orthogonal_def)
  with region.start [of "(0, 0)" lineField] have b1: "(1, 0) \<in> border lineField (0, 0)"
    using ib(2) c(1) by (auto simp: border_def zeroCell_def)
  have b2: "(2, 0) \<notin> border lineField (0, 0)"
    using c(2) by (simp add: border_def)
  from updateFieldVisibility_reveals [OF wf ib(1) zero] obtain field' previousCells where
    run: "\<forall>fuel. length (Cells lineField) < fuel \<longrightarrow>
      updateFieldVisibility fuel 0 0 (lineField, {}) = Some (Inr (field', previousCells))"
    and cells: "\<forall>x y. inBounds lineField x y \<longrightarrow>
      cellOf field' x y =
        (if (x, y) \<in> border lineField (0, 0)
         then (cellOf lineField x y)\<lparr>IsVisible := True\<rparr> else cellOf lineField x y)"
    by blast
  from run len have "updateFieldVisibility 4 0 0 (lineField, {}) =
      Some (Inr (field', previousCells))"
    by blast
  moreover from cells ib(2) b1 c(1)
  have "cellOf field' 1 0 = zeroCell\<lparr>IsVisible := True, AdjucentBlackHoleQuantity := 1\<rparr>"
    by (simp add: zeroCell_def)
  moreover from cells ib(3) b2 c(2) have "cellOf field' 2 0 = zeroCell\<lparr>IsBlackHole := True\<rparr>"
    by simp
  ultimately show ?thesis using wf ib(1) zero len by blast
qed

text \<open>
  Claim C4 as stated, at \<open>lineField\<close> and its free cell (0, 0), which has no adjacent
  black hole and belongs to its own region. The traversal makes the neighbour (1, 0)
  visible and returns; the start cell is still hidden, since the traversal sets
  \<open>IsVisible\<close> on neighbours only.
\<close>

theorem updateFieldVisibility_start_stays_hidden:
  "AdjucentBlackHoleQuantity (cellOf lineField 0 0) = 0 \<and>
   (0, 0) \<in> region lineField (0, 0) \<and>
   updateFieldVisibility 4 0 0 (lineField, {}) =
     Some (Inr (lineField\<lparr>Cells :=
       [zeroCell, zeroCell\<lparr>IsVisible := True, AdjucentBlackHoleQuantity := 1\<rparr>,
        zeroCell\<lparr>IsBlackHole := True\<rparr>]\<rparr>, {(1, 0)})) \<and>
   \<not> IsVisible (cellOf (lineField\<lparr>Cells :=
       [zeroCell, zeroCell\<lparr>IsVisible := True, AdjucentBlackHoleQuantity := 1\<rparr>,
        zeroCell\<lparr>IsBlackHole := True\<rparr>]\<rparr>) 0 0)"
  by (simp add: region.start lineField_def cellOf_def zeroCell_def numeral_nat
      visitNeighbour_def andThen_def cellAt_def setCell_def)

end
